theory Spec2Isabelle
  imports
    Complex_Main
    "HOL-Library.AList"
    "HOL-Library.Char_ord"
    "HOL-Library.List_Lexorder"
    "HOL-Library.Product_Lexorder"
    "HOL-Library.Log_Nat"
    "HOL-Library.Multiset"
begin

section \<open>Values, errors and documents\<close>

text \<open>
  The backend is untyped Python over a document store. A raise is a value of
  \<open>error\<close>; a function that can raise returns \<open>error + 'a\<close> with \<open>Inl\<close> the error.
  \<open>HTTPException\<close> carries the status code and the detail string of the source.
\<close>

datatype error =
    HTTPException nat string
  | AttributeError
  | TypeError
  | ValueError
  | OverflowError

text \<open>
  A \<open>datetime\<close> has the civil fields of Python's class and an optional offset from
  UTC (\<open>tzinfo\<close>; \<open>None\<close> is an offset-naive value, \<open>Some 0\<close> is \<open>timezone.utc\<close>).
  A \<open>timedelta\<close>, and so an offset, is a whole number of microseconds.
\<close>

type_synonym timedelta = int

record datetime =
  year :: int
  month :: int
  day :: int
  hour :: int
  minute :: int
  second :: int
  microsecond :: int
  tzinfo :: "timedelta option"

text \<open>
  The values a JSON body, a query parameter or a stored field can hold here: null, an
  integer, a string, a datetime. (Floats, booleans, arrays and nested objects are not
  part of the model.)
\<close>

datatype pyval = PNone | PInt int | PStr string | PDatetime datetime

text \<open>Python's truth value of an object, as \<open>x or 0\<close> and \<open>if x\<close> read it.\<close>

fun truthy :: "pyval \<Rightarrow> bool" where
  "truthy PNone = False"
| "truthy (PInt i) = (i \<noteq> 0)"
| "truthy (PStr s) = (s \<noteq> [])"
| "truthy (PDatetime d) = True"

section \<open>The proleptic Gregorian calendar of the datetime module\<close>

text \<open>
  These follow the reference implementation of Python's \<open>datetime\<close>: day ordinals
  count from 0001-01-01 = 1; \<open>//\<close> and \<open>%\<close> with a positive divisor are \<open>div\<close> and
  \<open>mod\<close> on \<open>int\<close>.
\<close>

definition MAXORDINAL :: int where
  "MAXORDINAL = 3652059"

definition DAYS_IN_MONTH :: "int list" where
  "DAYS_IN_MONTH = [-1, 31, 28, 31, 30, 31, 30, 31, 31, 30, 31, 30, 31]"

definition DAYS_BEFORE_MONTH :: "int list" where
  "DAYS_BEFORE_MONTH = [-1, 0, 31, 59, 90, 120, 151, 181, 212, 243, 273, 304, 334]"

definition is_leap :: "int \<Rightarrow> bool" where
  "is_leap y = (y mod 4 = 0 \<and> (y mod 100 \<noteq> 0 \<or> y mod 400 = 0))"

definition days_before_year :: "int \<Rightarrow> int" where
  "days_before_year y = (let y1 = y - 1 in y1 * 365 + y1 div 4 - y1 div 100 + y1 div 400)"

definition days_in_month :: "int \<Rightarrow> int \<Rightarrow> int" where
  "days_in_month y m = (if m = 2 \<and> is_leap y then 29 else DAYS_IN_MONTH ! nat m)"

definition days_before_month :: "int \<Rightarrow> int \<Rightarrow> int" where
  "days_before_month y m =
     DAYS_BEFORE_MONTH ! nat m + (if m > 2 \<and> is_leap y then 1 else 0)"

definition ymd2ord :: "int \<Rightarrow> int \<Rightarrow> int \<Rightarrow> int" where
  "ymd2ord y m d = days_before_year y + days_before_month y m + d"

definition ord2ymd :: "int \<Rightarrow> int \<times> int \<times> int" where
  "ord2ymd n =
     (let n0 = n - 1;
          n400 = n0 div 146097; r400 = n0 mod 146097;
          n100 = r400 div 36524; r100 = r400 mod 36524;
          n4 = r100 div 1461; r4 = r100 mod 1461;
          n1 = r4 div 365; r1 = r4 mod 365;
          y = n400 * 400 + 1 + n100 * 100 + n4 * 4 + n1
      in if n1 = 4 \<or> n100 = 4 then (y - 1, 12, 31)
         else
           let leapyear = (n1 = 3 \<and> (n4 \<noteq> 24 \<or> n100 = 3));
               m = (r1 + 50) div 32;
               preceding = DAYS_BEFORE_MONTH ! nat m + (if m > 2 \<and> leapyear then 1 else 0)
           in if preceding > r1
              then
                let m' = m - 1;
                    preceding' = preceding
                       - (DAYS_IN_MONTH ! nat m' + (if m' = 2 \<and> leapyear then 1 else 0))
                in (y, m', r1 - preceding' + 1)
              else (y, m, r1 - preceding + 1))"

text \<open>The class invariant of a Python \<open>datetime\<close>: what its constructor checks.\<close>

definition valid_datetime :: "datetime \<Rightarrow> bool" where
  "valid_datetime d =
     (1 \<le> year d \<and> year d \<le> 9999 \<and> 1 \<le> month d \<and> month d \<le> 12
      \<and> 1 \<le> day d \<and> day d \<le> days_in_month (year d) (month d)
      \<and> 0 \<le> hour d \<and> hour d < 24 \<and> 0 \<le> minute d \<and> minute d < 60
      \<and> 0 \<le> second d \<and> second d < 60
      \<and> 0 \<le> microsecond d \<and> microsecond d < 1000000
      \<and> (case tzinfo d of None \<Rightarrow> True
          | Some off \<Rightarrow> - 86400000000 < off \<and> off < 86400000000))"

text \<open>
  \<open>d.replace(...)\<close> on date or time fields builds a new object through the checking
  constructor and raises \<open>ValueError\<close> when a field is out of range.
\<close>

definition datetime_new ::
  "int \<Rightarrow> int \<Rightarrow> int \<Rightarrow> int \<Rightarrow> int \<Rightarrow> int \<Rightarrow> int \<Rightarrow> timedelta option \<Rightarrow> error + datetime" where
  "datetime_new y m d hh mm ss us tz =
     (let r = \<lparr>year = y, month = m, day = d, hour = hh, minute = mm, second = ss,
                microsecond = us, tzinfo = tz\<rparr>
      in if valid_datetime r then Inr r else Inl ValueError)"

definition toordinal :: "datetime \<Rightarrow> int" where
  "toordinal d = ymd2ord (year d) (month d) (day d)"

definition weekday :: "datetime \<Rightarrow> int" where
  "weekday d = (toordinal d + 6) mod 7"

definition timedelta_days :: "int \<Rightarrow> timedelta" where
  "timedelta_days k = k * 86400000000"

text \<open>
  \<open>datetime + timedelta\<close>: the sum is normalised into days, seconds and microseconds;
  a day count outside \<open>1..MAXORDINAL\<close> raises \<open>OverflowError\<close>. The offset is kept.
\<close>

definition datetime_add :: "datetime \<Rightarrow> timedelta \<Rightarrow> error + datetime" where
  "datetime_add d td =
     (let delta = ((toordinal d * 86400 + hour d * 3600 + minute d * 60 + second d) * 1000000
                    + microsecond d) + td;
          days = delta div 86400000000;
          secs = (delta mod 86400000000) div 1000000;
          us = delta mod 1000000;
          hh = secs div 3600; rm = secs mod 3600;
          mm = rm div 60; ss = rm mod 60
      in if 0 < days \<and> days \<le> MAXORDINAL
         then (case ord2ymd days of
                 (y, m, dd) \<Rightarrow>
                   Inr \<lparr>year = y, month = m, day = dd, hour = hh, minute = mm, second = ss,
                        microsecond = us, tzinfo = tzinfo d\<rparr>)
         else Inl OverflowError)"

text \<open>
  \<open>datetime - datetime\<close>: the difference of the civil fields, corrected by the two
  offsets; one naive and one aware operand raise \<open>TypeError\<close>.
\<close>

definition datetime_sub :: "datetime \<Rightarrow> datetime \<Rightarrow> error + timedelta" where
  "datetime_sub a b =
     (let days1 = toordinal a; days2 = toordinal b;
          secs1 = second a + minute a * 60 + hour a * 3600;
          secs2 = second b + minute b * 60 + hour b * 3600;
          base = (days1 - days2) * 86400000000 + (secs1 - secs2) * 1000000
                   + (microsecond a - microsecond b)
      in case (tzinfo a, tzinfo b) of
           (None, None) \<Rightarrow> Inr base
         | (Some myoff, Some otoff) \<Rightarrow> Inr (base + otoff - myoff)
         | _ \<Rightarrow> Inl TypeError)"

text \<open>
  The absolute position of a datetime, in microseconds of UTC since the day before
  ordinal 1; a naive value is read as UTC. This is also how the store encodes and
  compares dates.
\<close>

definition utc_micros :: "datetime \<Rightarrow> int" where
  "utc_micros d =
     ((toordinal d * 86400 + hour d * 3600 + minute d * 60 + second d) * 1000000
        + microsecond d)
     - (case tzinfo d of None \<Rightarrow> 0 | Some off \<Rightarrow> off)"

section \<open>Floating point\<close>

text \<open>
  \<open>timedelta.total_seconds()\<close> returns a float and \<open>// 60\<close> on it is the floor
  division of floats. A finite float (IEEE 754 binary64) is modelled by the rational
  number it denotes. An operation whose exact result is not a float returns the nearest
  float, a tie going to the even significand of 53 bits. The difference of two
  datetimes is below \<open>2 ^ 39\<close> seconds and, when it is not 0, at least a microsecond:
  all values lie far inside the range of exponents, so overflow and subnormal numbers
  are not modelled.
\<close>

definition round_half_even :: "rat \<Rightarrow> int" where
  "round_half_even q =
     (let f = \<lfloor>q\<rfloor>; r = q - of_int f
      in if r < 1 / 2 then f
         else if 1 / 2 < r then f + 1
         else if even f then f else f + 1)"

text \<open>
  \<open>ilog2 v\<close> is the exponent of the leading bit of a positive \<open>v\<close>, the floor of its
  binary logarithm, found from bit lengths (\<open>bitlen n\<close> is \<open>n.bit_length()\<close>).
\<close>

definition ilog2 :: "rat \<Rightarrow> int" where
  "ilog2 v = (if 1 \<le> v then bitlen \<lfloor>v\<rfloor> - 1 else - bitlen (\<lceil>1 / v\<rceil> - 1))"

definition round_float :: "rat \<Rightarrow> rat" where
  "round_float v =
     (if v = 0 then 0
      else let e = ilog2 \<bar>v\<bar> - 52
           in of_int (round_half_even (v / 2 powi e)) * 2 powi e)"

text \<open>
  \<open>total_seconds\<close> divides the microseconds of the timedelta by \<open>10 ** 6\<close>, a true
  division of two integers, which Python rounds correctly.
\<close>

definition total_seconds :: "timedelta \<Rightarrow> rat" where
  "total_seconds td = round_float (of_int td / 1000000)"

text \<open>
  \<open>int(x)\<close> truncates towards zero. \<open>fmod\<close> of C is exact and has the sign of its
  first argument. \<open>float_floordiv\<close> is \<open>x // y\<close> for a divisor other than 0, as
  \<open>float_floor_div\<close> of CPython computes it: the remainder by \<open>fmod\<close>, the quotient
  \<open>(x - mod) / y\<close>, less 1 when the remainder and the divisor differ in sign, then
  snapped to the nearest whole number.
\<close>

definition int_of_float :: "rat \<Rightarrow> int" where
  "int_of_float q = (if 0 \<le> q then \<lfloor>q\<rfloor> else \<lceil>q\<rceil>)"

definition float_fmod :: "rat \<Rightarrow> rat \<Rightarrow> rat" where
  "float_fmod x y = x - of_int (int_of_float (x / y)) * y"

definition float_floordiv :: "rat \<Rightarrow> rat \<Rightarrow> rat" where
  "float_floordiv vx wx =
     (let md = float_fmod vx wx;
          dv0 = round_float (round_float (vx - md) / wx);
          dv = (if md \<noteq> 0 \<and> (wx < 0) \<noteq> (md < 0) then round_float (dv0 - 1) else dv0)
      in if dv \<noteq> 0
         then (let fl = of_int \<lfloor>dv\<rfloor>
               in if 1 / 2 < round_float (dv - fl) then round_float (fl + 1) else fl)
         else 0)"

text \<open>The expression \<open>int(td.total_seconds() // 60)\<close> of \<open>compute_worked_minutes\<close>.\<close>

definition whole_minutes :: "timedelta \<Rightarrow> int" where
  "whole_minutes td = int_of_float (float_floordiv (total_seconds td) 60)"

section \<open>The duration engine\<close>

text \<open>
  \<open>compute_worked_minutes\<close> of \<open>main.py\<close>. \<open>now\<close> is what \<open>datetime.now(timezone.utc)\<close>
  returns when the function reads the clock. \<open>diff\<close> is
  \<open>int((end - start).total_seconds() // 60)\<close>, computed on floats. An
  argument without the attribute \<open>tzinfo\<close> raises \<open>AttributeError\<close>; subtracting a
  string or a datetime from the integer \<open>diff\<close> raises \<open>TypeError\<close>.
\<close>

definition compute_worked_minutes :: "datetime \<Rightarrow> pyval \<Rightarrow> pyval \<Rightarrow> pyval \<Rightarrow> error + int" where
  "compute_worked_minutes now start end_time break_minutes =
     (let end1 = (if end_time = PNone then PDatetime now else end_time) in
      case start of
        PDatetime s0 \<Rightarrow>
          (let s = (if tzinfo s0 = None then s0\<lparr>tzinfo := Some 0\<rparr> else s0) in
           case end1 of
             PDatetime e0 \<Rightarrow>
               (let e = (if tzinfo e0 = None then e0\<lparr>tzinfo := Some 0\<rparr> else e0) in
                case datetime_sub e s of
                  Inl err \<Rightarrow> Inl err
                | Inr td \<Rightarrow>
                    (let diff = whole_minutes td;
                         b = (if truthy break_minutes then break_minutes else PInt 0)
                     in case b of
                          PInt n \<Rightarrow> Inr (max 0 (diff - n))
                        | _ \<Rightarrow> Inl TypeError))
           | _ \<Rightarrow> Inl AttributeError)
      | _ \<Rightarrow> Inl AttributeError)"

section \<open>The document store\<close>

text \<open>
  A stored document: its \<open>_id\<close> (an ObjectId, written as its 24 lower-case hex digits)
  and its other fields as a Python dict, in insertion order. A collection is the list
  of its documents in natural order.
\<close>

record doc =
  oid :: string
  body :: "(string \<times> pyval) list"

text \<open>\<open>d.get(k)\<close> and \<open>d.get(k, default)\<close>.\<close>

definition dict_get :: "(string \<times> pyval) list \<Rightarrow> string \<Rightarrow> pyval" where
  "dict_get d k = (case map_of d k of None \<Rightarrow> PNone | Some v \<Rightarrow> v)"

definition dict_get_default :: "(string \<times> pyval) list \<Rightarrow> string \<Rightarrow> pyval \<Rightarrow> pyval" where
  "dict_get_default d k dflt = (case map_of d k of None \<Rightarrow> dflt | Some v \<Rightarrow> v)"








text \<open>\<open>find_one({"_id": i})\<close> and \<open>update_one({"_id": i}, {"$set": upd})\<close>.\<close>

definition find_one :: "string \<Rightarrow> doc list \<Rightarrow> doc option" where
  "find_one i store = List.find (\<lambda>d. oid d = i) store"

definition set_fields :: "(string \<times> pyval) list \<Rightarrow> doc \<Rightarrow> doc" where
  "set_fields upd d = d\<lparr>body := fold (\<lambda>(k, v). AList.update k v) upd (body d)\<rparr>"

fun update_one :: "string \<Rightarrow> (string \<times> pyval) list \<Rightarrow> doc list \<Rightarrow> doc list" where
  "update_one i upd [] = []"
| "update_one i upd (d # ds) =
     (if oid d = i then set_fields upd d # ds else d # update_one i upd ds)"

section \<open>The endpoints\<close>

text \<open>
  \<open>to_object_id\<close>: an ObjectId is built from a string of 24 hex digits; any other
  string is refused with status 400.
\<close>

definition lower_hex :: "char \<Rightarrow> char" where
  "lower_hex c =
     (if c = CHR ''A'' then CHR ''a'' else if c = CHR ''B'' then CHR ''b''
      else if c = CHR ''C'' then CHR ''c'' else if c = CHR ''D'' then CHR ''d''
      else if c = CHR ''E'' then CHR ''e'' else if c = CHR ''F'' then CHR ''f'' else c)"

definition to_object_id :: "string \<Rightarrow> error + string" where
  "to_object_id id_str =
     (if length id_str = 24 \<and> list_all (\<lambda>c. c \<in> set ''0123456789abcdefABCDEF'') id_str
      then Inr (map lower_hex id_str)
      else Inl (HTTPException 400 ''Invalid id format''))"

text \<open>
  The call \<open>compute_worked_minutes(d.get("start_time"), d.get("end_time"),
  d.get("break_minutes", 0))\<close> that the listing, the update and the summary make on a
  document.
\<close>

definition doc_worked_minutes :: "datetime \<Rightarrow> (string \<times> pyval) list \<Rightarrow> error + int" where
  "doc_worked_minutes now f =
     compute_worked_minutes now (dict_get f ''start_time'') (dict_get f ''end_time'')
       (dict_get_default f ''break_minutes'' (PInt 0))"

subsection \<open>Listing\<close>



text \<open>The body of the loop over the fetched documents: \<open>try\<close> the computation,
  fall back to the stored \<open>worked_minutes\<close> (or 0) on any exception.\<close>

definition recompute_entry :: "datetime \<Rightarrow> doc \<Rightarrow> doc" where
  "recompute_entry now d =
     (let worked = (case doc_worked_minutes now (body d) of
                      Inr w \<Rightarrow> PInt w
                    | Inl _ \<Rightarrow> dict_get_default (body d) ''worked_minutes'' (PInt 0))
      in d\<lparr>body := AList.update ''worked_minutes'' worked (body d)\<rparr>)"

text \<open>
  \<open>list.sort(key=..., reverse=True)\<close>: Python orders two integers, two strings, two
  naive or two aware datetimes; every other pair, \<open>None\<close> with \<open>None\<close> included,
  raises \<open>TypeError\<close>. A list of fewer than two elements is never compared. The sort
  is stable, also when reversed.
\<close>

definition datetime_min :: datetime where
  "datetime_min = \<lparr>year = 1, month = 1, day = 1, hour = 0, minute = 0, second = 0,
                    microsecond = 0, tzinfo = None\<rparr>"




subsection \<open>Partial update\<close>

definition allowed :: "string list" where
  "allowed = [''start_time'', ''end_time'', ''break_minutes'', ''hourly_rate'', ''notes'',
              ''client_id'', ''project_id'']"

text \<open>
  \<open>update_time_entry\<close>: the payload is the JSON object of the request body, as a dict.
  The result is the response (or the exception) and the store afterwards.
\<close>

definition update_time_entry ::
  "datetime \<Rightarrow> doc list option \<Rightarrow> string \<Rightarrow> (string \<times> pyval) list
     \<Rightarrow> (error + doc) \<times> doc list option" where
  "update_time_entry now db entry_id payload =
     (case db of
        None \<Rightarrow> (Inl (HTTPException 500 ''Database not available''), db)
      | Some store \<Rightarrow>
          (let update = filter (\<lambda>(k, v). k \<in> set allowed) payload in
           if update = [] then (Inl (HTTPException 400 ''No valid fields to update''), db)
           else
             (case to_object_id entry_id of
                Inl e \<Rightarrow> (Inl e, db)
              | Inr i \<Rightarrow>
                  (let store1 = update_one i update store in
                   case find_one i store1 of
                     None \<Rightarrow> (Inl (HTTPException 404 ''Time entry not found''), Some store1)
                   | Some d \<Rightarrow>
                       (case doc_worked_minutes now (body d) of
                          Inl e \<Rightarrow> (Inl e, Some store1)
                        | Inr worked \<Rightarrow>
                            (Inr (d\<lparr>body :=
                                     AList.update ''worked_minutes'' (PInt worked) (body d)\<rparr>),
                             Some (update_one i [(''worked_minutes'', PInt worked)] store1)))))))"

subsection \<open>Stop\<close>


subsection \<open>Summary\<close>

text \<open>\<open>d.replace(...)\<close> on the date fields and on the time fields.\<close>

definition replace_date :: "datetime \<Rightarrow> int \<Rightarrow> int \<Rightarrow> int \<Rightarrow> error + datetime" where
  "replace_date d y m dd =
     datetime_new y m dd (hour d) (minute d) (second d) (microsecond d) (tzinfo d)"

definition replace_time :: "datetime \<Rightarrow> int \<Rightarrow> int \<Rightarrow> int \<Rightarrow> int \<Rightarrow> error + datetime" where
  "replace_time d hh mm ss us = datetime_new (year d) (month d) (day d) hh mm ss us (tzinfo d)"

text \<open>The four ranges of \<open>get_summary\<close>, in the order of the dict \<open>ranges\<close>.\<close>

definition get_summary_ranges :: "datetime \<Rightarrow> error + (string \<times> datetime \<times> datetime) list" where
  "get_summary_ranges now =
     (case replace_time now 0 0 0 0 of Inl e \<Rightarrow> Inl e | Inr day_start \<Rightarrow>
      case datetime_add day_start (- timedelta_days (weekday day_start)) of
        Inl e \<Rightarrow> Inl e | Inr week_start \<Rightarrow>
      case replace_date day_start (year day_start) (month day_start) 1 of
        Inl e \<Rightarrow> Inl e | Inr month_start \<Rightarrow>
      case (if month month_start = 1
            then replace_date month_start (year month_start - 1) 12 (day month_start)
            else replace_date month_start (year month_start) (month month_start - 1)
                   (day month_start)) of
        Inl e \<Rightarrow> Inl e | Inr prev_month_start \<Rightarrow>
      case (if month month_start = 12
            then replace_date month_start (year month_start + 1) 1 (day month_start)
            else replace_date month_start (year month_start) (month month_start + 1)
                   (day month_start)) of
        Inl e \<Rightarrow> Inl e | Inr next_month_start \<Rightarrow>
      case datetime_add day_start (timedelta_days 1) of Inl e \<Rightarrow> Inl e | Inr day_end \<Rightarrow>
      case datetime_add week_start (timedelta_days 7) of Inl e \<Rightarrow> Inl e | Inr week_end \<Rightarrow>
        Inr [(''today'', day_start, day_end),
             (''week'', week_start, week_end),
             (''month'', month_start, next_month_start),
             (''prev_month'', prev_month_start, month_start)])"




section \<open>Example values\<close>

definition ex_start :: datetime where
  "ex_start = \<lparr>year = 2024, month = 3, day = 1, hour = 9, minute = 0, second = 0,
                 microsecond = 0, tzinfo = Some 0\<rparr>"

definition ex_end :: datetime where
  "ex_end = \<lparr>year = 2024, month = 3, day = 1, hour = 17, minute = 0, second = 0,
               microsecond = 0, tzinfo = Some 0\<rparr>"


definition ex_entry :: doc where
  "ex_entry = \<lparr>oid = ''65e1a0000000000000000001'',
      body = [(''client_id'', PStr ''65e1a00000000000000000c1''),
              (''start_time'', PDatetime ex_start),
              (''end_time'', PDatetime ex_end),
              (''break_minutes'', PInt 30),
              (''worked_minutes'', PInt 450)]\<rparr>"

text \<open>Helpers for stating the ranges: midnight of a day given by its ordinal, midnight
  of a datetime's own day, and midnight of the first day of a month.\<close>

definition from_ordinal_midnight :: "int \<Rightarrow> timedelta option \<Rightarrow> datetime" where
  "from_ordinal_midnight n tz =
     (case ord2ymd n of
        (y, m, dd) \<Rightarrow> \<lparr>year = y, month = m, day = dd, hour = 0, minute = 0, second = 0,
                       microsecond = 0, tzinfo = tz\<rparr>)"

definition spec_midnight :: "datetime \<Rightarrow> datetime" where
  "spec_midnight d = d\<lparr>hour := 0, minute := 0, second := 0, microsecond := 0\<rparr>"

definition spec_first_of_month :: "int \<Rightarrow> int \<Rightarrow> timedelta option \<Rightarrow> datetime" where
  "spec_first_of_month y m tz =
     \<lparr>year = y, month = m, day = 1, hour = 0, minute = 0, second = 0, microsecond = 0,
      tzinfo = tz\<rparr>"

definition ex_now :: datetime where
  "ex_now = \<lparr>year = 2024, month = 1, day = 17, hour = 12, minute = 34, second = 56,
              microsecond = 789000, tzinfo = Some 0\<rparr>"

definition ex_day :: "int \<Rightarrow> int \<Rightarrow> int \<Rightarrow> datetime" where
  "ex_day y m d = \<lparr>year = y, month = m, day = d, hour = 0, minute = 0, second = 0,
                  microsecond = 0, tzinfo = Some 0\<rparr>"

text \<open>An instant lies in a half-open range of instants.\<close>

definition spec_in_range :: "datetime \<Rightarrow> datetime \<times> datetime \<Rightarrow> bool" where
  "spec_in_range t r = (utc_micros (fst r) \<le> utc_micros t \<and> utc_micros t < utc_micros (snd r))"














definition spec_start_pos :: "doc \<Rightarrow> int" where
  "spec_start_pos d =
     utc_micros (case map_of (body d) ''start_time'' of
                   Some (PDatetime t) \<Rightarrow> t
                 | _ \<Rightarrow> datetime_min)"






text \<open>A start more than six centuries before the end: 1400-01-01T00:00:00.000001Z.\<close>

definition ex_long_start :: datetime where
  "ex_long_start = \<lparr>year = 1400, month = 1, day = 1, hour = 0, minute = 0, second = 0,
                      microsecond = 1, tzinfo = Some 0\<rparr>"

section \<open>Properties of the float arithmetic\<close>

text \<open>
  Rounding to the nearest float keeps every integer below \<open>2 ^ 53\<close>, never crosses
  such an integer, and below \<open>2 ^ 34\<close> moves a number by at most \<open>2 ^ -20\<close>. So the
  whole minutes of a timedelta are the floor of its exact minutes or one more, and
  exactly the floor when the timedelta is shorter than \<open>2 ^ 34\<close> seconds (544 years).
\<close>

lemma round_half_even_of_int: "round_half_even (of_int i) = i"
  by (simp add: round_half_even_def)

lemma round_half_even_ge:
  assumes "of_int N \<le> q"
  shows "N \<le> round_half_even q"
proof -
  have "N \<le> \<lfloor>q\<rfloor>" using assms by (simp add: le_floor_iff)
  then show ?thesis by (simp add: round_half_even_def Let_def)
qed

lemma round_half_even_le:
  assumes "q \<le> of_int N"
  shows "round_half_even q \<le> N"
proof (cases "q = of_int \<lfloor>q\<rfloor>")
  case True
  then have "round_half_even q = \<lfloor>q\<rfloor>"
    by (metis round_half_even_of_int)
  moreover have "\<lfloor>q\<rfloor> \<le> N" using assms by (simp add: floor_le_iff)
  ultimately show ?thesis by simp
next
  case False
  then have "of_int \<lfloor>q\<rfloor> < q"
    by (metis of_int_floor_le order_le_less)
  from this assms have "(of_int \<lfloor>q\<rfloor> :: rat) < of_int N" by (rule less_le_trans)
  then have "\<lfloor>q\<rfloor> + 1 \<le> N" by simp
  then show ?thesis by (simp add: round_half_even_def Let_def)
qed

lemma round_half_even_err: "\<bar>of_int (round_half_even q) - q\<bar> \<le> 1 / 2"
proof -
  define r where "r = q - of_int \<lfloor>q\<rfloor>"
  have r: "0 \<le> r" "r < 1" unfolding r_def by linarith+
  have q: "q = of_int \<lfloor>q\<rfloor> + r" by (simp add: r_def)
  have c: "round_half_even q = \<lfloor>q\<rfloor> \<and> r \<le> 1 / 2 \<or> round_half_even q = \<lfloor>q\<rfloor> + 1 \<and> 1 / 2 \<le> r"
    unfolding round_half_even_def Let_def r_def [symmetric] by auto
  then show ?thesis
  proof
    assume a: "round_half_even q = \<lfloor>q\<rfloor> \<and> r \<le> 1 / 2"
    then have "of_int (round_half_even q) - q = - r" by (simp add: r_def)
    with a r show ?thesis by simp
  next
    assume a: "round_half_even q = \<lfloor>q\<rfloor> + 1 \<and> 1 / 2 \<le> r"
    then have "of_int (round_half_even q) - q = 1 - r" by (simp add: r_def)
    with a r show ?thesis by simp
  qed
qed

lemma ilog2_le:
  assumes "0 < v" and "v < 2 ^ k" and "0 < k"
  shows "ilog2 v \<le> int k - 1"
proof (cases "1 \<le> v")
  case True
  have "\<lfloor>v\<rfloor> < 2 ^ k"
    using assms(2) by (simp add: floor_less_iff)
  then have "bitlen \<lfloor>v\<rfloor> \<le> int k" by (simp add: bitlen_le_iff_power)
  with True show ?thesis by (simp add: ilog2_def)
next
  case False
  have "0 \<le> bitlen (\<lceil>1 / v\<rceil> - 1)" by (rule bitlen_nonneg)
  with False assms(3) show ?thesis by (simp add: ilog2_def)
qed

lemma power_int_nonpos: "e \<le> 0 \<Longrightarrow> (2::rat) powi e = 1 / 2 ^ nat (- e)"
  by (cases "e = 0") (simp_all add: power_int_def power_inverse field_simps)

lemma round_float_scaled:
  assumes "v \<noteq> 0" and "\<bar>v\<bar> < 2 ^ k" and "0 < k" and "k \<le> 53"
  shows "\<exists>n. round_float v = of_int (round_half_even (v * 2 ^ n)) / 2 ^ n \<and> 53 \<le> n + k"
proof -
  define e where "e = ilog2 \<bar>v\<bar> - 52"
  have "ilog2 \<bar>v\<bar> \<le> int k - 1"
    by (rule ilog2_le) (use assms in simp_all)
  then have e: "e \<le> int k - 53" by (simp add: e_def)
  with assms(4) have e0: "e \<le> 0" by simp
  have "round_float v = of_int (round_half_even (v / 2 powi e)) * 2 powi e"
    using assms(1) by (simp add: round_float_def e_def Let_def)
  also have "\<dots> = of_int (round_half_even (v * 2 ^ nat (- e))) / 2 ^ nat (- e)"
    by (simp add: power_int_nonpos [OF e0])
  finally have "round_float v = of_int (round_half_even (v * 2 ^ nat (- e))) / 2 ^ nat (- e)" .
  moreover have "53 \<le> nat (- e) + k" using e by simp
  ultimately show ?thesis by blast
qed

lemma round_float_of_int:
  assumes "\<bar>i\<bar> < 2 ^ 53"
  shows "round_float (of_int i) = of_int i"
proof (cases "i = 0")
  case True
  then show ?thesis by (simp add: round_float_def)
next
  case False
  then have nz: "(of_int i :: rat) \<noteq> 0" by simp
  have "(of_int \<bar>i\<bar> :: rat) < of_int (2 ^ 53)"
    using assms by (simp only: of_int_less_iff)
  then have b: "\<bar>of_int i :: rat\<bar> < 2 ^ 53" by simp
  from round_float_scaled [of "of_int i" 53, OF nz b]
  obtain n where n: "round_float (of_int i) = of_int (round_half_even (of_int i * 2 ^ n)) / 2 ^ n"
    by auto
  have "(of_int i :: rat) * 2 ^ n = of_int (i * 2 ^ n)" by simp
  then have "round_half_even (of_int i * 2 ^ n) = i * 2 ^ n"
    by (simp only: round_half_even_of_int)
  then show ?thesis unfolding n by simp
qed

lemma round_float_ge:
  assumes "\<bar>v\<bar> < 2 ^ 53" and "of_int N \<le> v"
  shows "of_int N \<le> round_float v"
proof (cases "v = 0")
  case True
  with assms(2) show ?thesis by (simp add: round_float_def)
next
  case False
  from round_float_scaled [of v 53, OF False assms(1)]
  obtain n where n: "round_float v = of_int (round_half_even (v * 2 ^ n)) / 2 ^ n"
    by auto
  have "of_int (N * 2 ^ n) \<le> v * 2 ^ n" using assms(2) by simp
  then have "N * 2 ^ n \<le> round_half_even (v * 2 ^ n)" by (rule round_half_even_ge)
  then have "(of_int (N * 2 ^ n) :: rat) \<le> of_int (round_half_even (v * 2 ^ n))"
    by (simp only: of_int_le_iff)
  then have "(of_int N :: rat) * 2 ^ n \<le> of_int (round_half_even (v * 2 ^ n))"
    by simp
  then show ?thesis unfolding n by (simp add: pos_le_divide_eq)
qed

lemma round_float_le:
  assumes "\<bar>v\<bar> < 2 ^ 53" and "v \<le> of_int N"
  shows "round_float v \<le> of_int N"
proof (cases "v = 0")
  case True
  with assms(2) show ?thesis by (simp add: round_float_def)
next
  case False
  from round_float_scaled [of v 53, OF False assms(1)]
  obtain n where n: "round_float v = of_int (round_half_even (v * 2 ^ n)) / 2 ^ n"
    by auto
  have "v * 2 ^ n \<le> of_int (N * 2 ^ n)" using assms(2) by simp
  then have "round_half_even (v * 2 ^ n) \<le> N * 2 ^ n" by (rule round_half_even_le)
  then have "(of_int (round_half_even (v * 2 ^ n)) :: rat) \<le> of_int (N * 2 ^ n)"
    by (simp only: of_int_le_iff)
  then have "(of_int (round_half_even (v * 2 ^ n)) :: rat) \<le> of_int N * 2 ^ n"
    by simp
  then show ?thesis unfolding n by (simp add: pos_divide_le_eq)
qed

lemma round_float_err:
  assumes "\<bar>v\<bar> < 2 ^ 34"
  shows "\<bar>round_float v - v\<bar> \<le> 1 / 2 ^ 20"
proof (cases "v = 0")
  case True
  then show ?thesis by (simp add: round_float_def)
next
  case False
  from round_float_scaled [of v 34, OF False assms]
  obtain n where n: "round_float v = of_int (round_half_even (v * 2 ^ n)) / 2 ^ n"
    and k: "19 \<le> n" by auto
  define a :: rat where "a = of_int (round_half_even (v * 2 ^ n))"
  have p: "(0::rat) < 2 ^ n" by simp
  have "(2::rat) ^ 19 \<le> 2 ^ n" using k by (intro power_increasing) simp_all
  then have p19: "1 / (2::rat) ^ n \<le> 1 / 2 ^ 19"
    by (intro divide_left_mono) simp_all
  have "round_float v - v = (a - v * 2 ^ n) / 2 ^ n"
    unfolding n a_def by (simp add: diff_divide_distrib)
  then have "\<bar>round_float v - v\<bar> = \<bar>a - v * 2 ^ n\<bar> * (1 / 2 ^ n)"
    by (simp add: abs_divide)
  also have "\<dots> \<le> (1 / 2) * (1 / 2 ^ n)"
    unfolding a_def by (rule mult_right_mono [OF round_half_even_err]) simp
  also have "\<dots> \<le> (1 / 2) * (1 / 2 ^ 19)"
    by (rule mult_left_mono [OF p19]) simp
  finally show ?thesis by simp
qed

lemma int_of_float_abs_le: "\<bar>of_int (int_of_float q) :: rat\<bar> \<le> \<bar>q\<bar>"
proof (cases "0 \<le> q")
  case True
  then have "0 \<le> \<lfloor>q\<rfloor>" by simp
  with True show ?thesis by (simp add: int_of_float_def)
next
  case False
  then have "\<lceil>q\<rceil> \<le> 0" by (simp add: ceiling_le_iff)
  then have "(of_int \<lceil>q\<rceil> :: rat) \<le> 0" by simp
  with False show ?thesis by (simp add: int_of_float_def)
qed

lemma floor_int_of_float: "\<lfloor>q\<rfloor> = (if q < of_int (int_of_float q) then int_of_float q - 1 else int_of_float q)"
proof (cases "0 \<le> q")
  case True
  have "\<not> q < of_int \<lfloor>q\<rfloor>" by (simp add: not_less)
  with True show ?thesis by (simp add: int_of_float_def)
next
  case False
  show ?thesis
  proof (cases "q = of_int \<lfloor>q\<rfloor>")
    case True
    then have "\<lceil>q\<rceil> = \<lfloor>q\<rfloor>" by (simp add: ceiling_altdef)
    with False show ?thesis by (simp add: int_of_float_def not_less)
  next
    case ni: False
    then have c: "\<lceil>q\<rceil> = \<lfloor>q\<rfloor> + 1" by (simp add: ceiling_altdef)
    have "q < of_int \<lfloor>q\<rfloor> + 1" by linarith
    with False c show ?thesis by (simp add: int_of_float_def)
  qed
qed

lemma float_floordiv_60:
  assumes "\<bar>x\<bar> < 2 ^ 53"
  shows "float_floordiv x 60 = of_int \<lfloor>x / 60\<rfloor>"
proof -
  define t where "t = int_of_float (x / 60)"
  define f where "f = \<lfloor>x / 60\<rfloor>"
  define md where "md = float_fmod x 60"
  have "\<bar>of_int t :: rat\<bar> \<le> \<bar>x / 60\<bar>" unfolding t_def by (rule int_of_float_abs_le)
  then have "\<bar>of_int t :: rat\<bar> * 60 \<le> \<bar>x\<bar>" by simp
  with assms have "\<bar>of_int t :: rat\<bar> * 60 < 2 ^ 53" by simp
  then have "(of_int (\<bar>t\<bar> * 60) :: rat) < of_int (2 ^ 53)" by simp
  then have tb: "\<bar>t\<bar> * 60 < 2 ^ 53" by (simp only: of_int_less_iff)
  have md: "md = x - of_int t * 60" by (simp add: md_def float_fmod_def t_def)
  have "x - md = of_int (t * 60)" by (simp add: md)
  moreover have "round_float (of_int (t * 60)) = of_int (t * 60)"
    by (rule round_float_of_int) (use tb in \<open>simp add: abs_mult\<close>)
  ultimately have s1: "round_float (x - md) = of_int (t * 60)" by simp
  have s2: "round_float (of_int (t * 60) / 60) = of_int t"
    using round_float_of_int [of t] tb by simp
  have s3: "round_float (of_int t - 1) = of_int (t - 1)"
    using round_float_of_int [of "t - 1"] tb by simp
  have neg: "(md \<noteq> 0 \<and> ((60::rat) < 0) \<noteq> (md < 0)) = (x / 60 < of_int t)"
    unfolding md by auto
  have fl: "f = (if x / 60 < of_int t then t - 1 else t)"
    unfolding f_def t_def by (rule floor_int_of_float)
  have dv: "(if md \<noteq> 0 \<and> ((60::rat) < 0) \<noteq> (md < 0)
             then round_float (round_float (round_float (x - md) / 60) - 1)
             else round_float (round_float (x - md) / 60)) = of_int f"
    unfolding neg s1 s2 s3 fl by simp
  have r0: "round_float 0 = 0" by (simp add: round_float_def)
  show ?thesis
    unfolding float_floordiv_def Let_def md_def [symmetric] dv f_def [symmetric]
    by (simp add: r0)
qed

lemma int_of_float_of_int: "int_of_float (of_int i) = i"
  by (simp add: int_of_float_def)

lemma whole_minutes_floor:
  assumes "\<bar>td\<bar> \<le> 1000000000000000000"
  shows "whole_minutes td = \<lfloor>total_seconds td / 60\<rfloor>"
    and "of_int (60 * (td div 60000000)) \<le> total_seconds td"
    and "total_seconds td \<le> of_int (60 * (td div 60000000 + 1))"
proof -
  define q where "q = td div 60000000"
  define v :: rat where "v = of_int td / 1000000"
  have x: "total_seconds td = round_float v" by (simp add: total_seconds_def v_def)
  define r where "r = td mod 60000000"
  have td: "td = 60000000 * q + r" by (simp add: q_def r_def)
  have m: "0 \<le> r" "r < 60000000" by (simp_all add: r_def)
  have q1: "60000000 * q \<le> td" using td m by linarith
  have "td \<le> 60000000 * q + 60000000" using td m by linarith
  then have q2: "td \<le> 60000000 * (q + 1)" by (simp add: distrib_left)
  have "(of_int (60000000 * q) :: rat) \<le> of_int td" using q1 by (simp only: of_int_le_iff)
  then have lo: "of_int (60 * q) \<le> v" by (simp add: v_def)
  have "(of_int td :: rat) \<le> of_int (60000000 * (q + 1))" using q2 by (simp only: of_int_le_iff)
  then have hi: "v \<le> of_int (60 * (q + 1))" by (simp add: v_def)
  have "(of_int \<bar>td\<bar> :: rat) \<le> of_int 1000000000000000000"
    using assms by (simp only: of_int_le_iff)
  then have va: "\<bar>v\<bar> \<le> 1000000000000" by (simp add: v_def)
  then have vb: "\<bar>v\<bar> < 2 ^ 53" by simp
  from va have b: "of_int (- 1000000000000) \<le> v" "v \<le> of_int 1000000000000" by simp_all
  have "of_int (- 1000000000000) \<le> round_float v" by (rule round_float_ge [OF vb b(1)])
  moreover have "round_float v \<le> of_int 1000000000000" by (rule round_float_le [OF vb b(2)])
  ultimately have xb: "\<bar>round_float v\<bar> < 2 ^ 53" by simp
  show "whole_minutes td = \<lfloor>total_seconds td / 60\<rfloor>"
    unfolding whole_minutes_def x float_floordiv_60 [OF xb] by (rule int_of_float_of_int)
  show "of_int (60 * (td div 60000000)) \<le> total_seconds td"
    unfolding x q_def [symmetric] by (rule round_float_ge [OF vb lo])
  show "total_seconds td \<le> of_int (60 * (td div 60000000 + 1))"
    unfolding x q_def [symmetric] by (rule round_float_le [OF vb hi])
qed

lemma whole_minutes_bounds:
  assumes "\<bar>td\<bar> \<le> 1000000000000000000"
  shows "td div 60000000 \<le> whole_minutes td"
    and "whole_minutes td \<le> td div 60000000 + 1"
proof -
  note f = whole_minutes_floor [OF assms]
  have "of_int (td div 60000000) \<le> total_seconds td / 60"
    using f(2) by simp
  then show "td div 60000000 \<le> whole_minutes td"
    unfolding f(1) by (simp only: le_floor_iff)
  have "total_seconds td / 60 \<le> of_int (td div 60000000 + 1)"
    using f(3) by simp
  then have "total_seconds td / 60 < of_int (td div 60000000 + 1) + 1" by linarith
  then show "whole_minutes td \<le> td div 60000000 + 1"
    unfolding f(1) by (simp only: floor_le_iff)
qed

lemma whole_minutes_exact:
  assumes "\<bar>td\<bar> < 17179869184000000"
  shows "whole_minutes td = td div 60000000"
proof -
  define q where "q = td div 60000000"
  define v :: rat where "v = of_int td / 1000000"
  have a: "\<bar>td\<bar> \<le> 1000000000000000000" using assms by simp
  note f = whole_minutes_floor [OF a]
  have x: "total_seconds td = round_float v" by (simp add: total_seconds_def v_def)
  define r where "r = td mod 60000000"
  have td: "td = 60000000 * q + r" by (simp add: q_def r_def)
  have m: "r < 60000000" by (simp add: r_def)
  have "td + 1 \<le> 60000000 * q + 60000000" using td m by linarith
  then have "td + 1 \<le> 60000000 * (q + 1)" by (simp add: distrib_left)
  then have "(of_int (td + 1) :: rat) \<le> of_int (60000000 * (q + 1))" by (simp only: of_int_le_iff)
  then have hi: "v + 1 / 1000000 \<le> of_int (60 * (q + 1))" by (simp add: v_def field_simps)
  have "(of_int \<bar>td\<bar> :: rat) < of_int 17179869184000000"
    using assms by (simp only: of_int_less_iff)
  then have "\<bar>v\<bar> < 2 ^ 34" by (simp add: v_def)
  then have "\<bar>round_float v - v\<bar> \<le> 1 / 2 ^ 20" by (rule round_float_err)
  then have "round_float v \<le> v + 1 / 2 ^ 20" by linarith
  also have "\<dots> < v + 1 / 1000000" by simp
  finally have "round_float v < of_int (60 * (q + 1))" using hi by linarith
  then have "total_seconds td / 60 < of_int (q + 1)" by (simp add: x)
  then have "\<lfloor>total_seconds td / 60\<rfloor> < q + 1" by (simp only: floor_less_iff)
  moreover have "q \<le> \<lfloor>total_seconds td / 60\<rfloor>"
    using whole_minutes_bounds(1) [OF a] unfolding f(1) q_def .
  ultimately show ?thesis unfolding f(1) q_def by linarith
qed

lemma whole_minutes_long_span:
  "whole_minutes 19691510399999999 = 328191840"
  by code_simp

section \<open>Properties of the duration engine\<close>

lemma datetime_sub_normalized:
  "datetime_sub (if tzinfo e = None then e\<lparr>tzinfo := Some 0\<rparr> else e)
                (if tzinfo s = None then s\<lparr>tzinfo := Some 0\<rparr> else s)
   = Inr (utc_micros e - utc_micros s)"
  by (cases "tzinfo e"; cases "tzinfo s")
     (simp_all add: datetime_sub_def utc_micros_def toordinal_def Let_def algebra_simps)

lemma compute_worked_minutes_datetimes:
  "compute_worked_minutes now (PDatetime s) (PDatetime e) (PInt b) =
     Inr (max 0 (whole_minutes (utc_micros e - utc_micros s) - b))"
  unfolding compute_worked_minutes_def Let_def
  by (simp add: datetime_sub_normalized del: max.absorb1 max.absorb2 max.absorb3 max.absorb4)

text \<open>
  Between two instants less than \<open>2 ^ 34\<close> seconds apart the result is the floor of the
  exact minutes, less the break, and 0 when that is negative.
\<close>

lemma compute_worked_minutes_exact:
  assumes "\<bar>utc_micros e - utc_micros s\<bar> < 17179869184000000"
  shows "compute_worked_minutes now (PDatetime s) (PDatetime e) (PInt b) =
           Inr (max 0 ((utc_micros e - utc_micros s) div 60000000 - b))"
  unfolding compute_worked_minutes_datetimes whole_minutes_exact [OF assms] ..

lemma utc_micros_ex_start: "utc_micros ex_start = 63844966800000000"
  by (simp add: utc_micros_def ex_start_def toordinal_def ymd2ord_def days_before_year_def
      days_before_month_def DAYS_BEFORE_MONTH_def is_leap_def Let_def)

lemma utc_micros_ex_end: "utc_micros ex_end = 63844995600000000"
  by (simp add: utc_micros_def ex_end_def toordinal_def ymd2ord_def days_before_year_def
      days_before_month_def DAYS_BEFORE_MONTH_def is_leap_def Let_def)

lemma utc_micros_ex_long:
  "utc_micros ex_long_start = 44148240000000001"
  "utc_micros (ex_day 2024 1 1) = 63839750400000000"
  by (simp_all add: utc_micros_def ex_long_start_def ex_day_def toordinal_def ymd2ord_def
      days_before_year_def days_before_month_def DAYS_BEFORE_MONTH_def is_leap_def Let_def)

text \<open>
  C1. The start 1400-01-01T00:00:00.000001Z and the end 2024-01-01T00:00:00Z are
  offset-aware and the start is the earlier one. They are 19691510399.999999 seconds
  apart, \<open>total_seconds()\<close> rounds this to the float 19691510400.0, and with a break
  of 0 \<open>compute_worked_minutes\<close> returns 328191840, where the floor of the seconds
  over 60, less the break, is 328191839.
\<close>

theorem compute_worked_minutes_float_rounding:
  "tzinfo ex_long_start \<noteq> None \<and> tzinfo (ex_day 2024 1 1) \<noteq> None
   \<and> utc_micros ex_long_start \<le> utc_micros (ex_day 2024 1 1)
   \<and> compute_worked_minutes ex_now (PDatetime ex_long_start) (PDatetime (ex_day 2024 1 1))
         (PInt 0) = Inr 328191840
   \<and> max 0 ((utc_micros (ex_day 2024 1 1) - utc_micros ex_long_start) div 60000000 - 0)
       = 328191839"
proof -
  have t: "tzinfo ex_long_start \<noteq> None" "tzinfo (ex_day 2024 1 1) \<noteq> None"
    by (simp_all add: ex_long_start_def ex_day_def)
  have c: "compute_worked_minutes ex_now (PDatetime ex_long_start)
             (PDatetime (ex_day 2024 1 1)) (PInt 0) = Inr 328191840"
    unfolding compute_worked_minutes_datetimes utc_micros_ex_long
    by (simp add: whole_minutes_long_span)
  from t c show ?thesis by (simp add: utc_micros_ex_long)
qed

lemma compute_worked_minutes_resolved:
  "compute_worked_minutes now (PDatetime s)
     (case eo of None \<Rightarrow> PNone | Some x \<Rightarrow> PDatetime x)
     (case bo of None \<Rightarrow> PNone | Some n \<Rightarrow> PInt n) =
   Inr (max 0 (whole_minutes (utc_micros (case eo of None \<Rightarrow> now | Some x \<Rightarrow> x) - utc_micros s)
          - (case bo of None \<Rightarrow> 0 | Some n \<Rightarrow> n)))"
  unfolding compute_worked_minutes_def Let_def
  by (cases eo; cases bo)
     (simp_all add: datetime_sub_normalized del: max.absorb1 max.absorb2 max.absorb3 max.absorb4)



section \<open>Properties of the partial update\<close>

lemma to_object_id_ex:
  "to_object_id ''65e1a0000000000000000001'' = Inr ''65e1a0000000000000000001''"
  by (simp add: to_object_id_def lower_hex_def)

lemma filter_allowed_idem:
  "filter (\<lambda>(k, v). k \<in> set allowed) (filter (\<lambda>(k, v). k \<in> set allowed) payload)
     = filter (\<lambda>(k, v). k \<in> set allowed) payload"
  by (induction payload) auto

text \<open>
  C10. With a store present, a payload that holds none of the allowed fields is
  refused with status 400 "No valid fields to update" and the store is returned as it
  was; for any payload, the update behaves as it does on the payload's allowed fields
  alone: the other fields are dropped.
\<close>

theorem update_time_entry_no_valid_fields:
  "(set (map fst payload) \<inter> set allowed = {} \<longrightarrow>
      update_time_entry now (Some store) entry_id payload =
        (Inl (HTTPException 400 ''No valid fields to update''), Some store))
   \<and> update_time_entry now db entry_id body2 =
       update_time_entry now db entry_id (filter (\<lambda>(k, v). k \<in> set allowed) body2)"
proof -
  have "filter (\<lambda>(k, v). k \<in> set allowed) payload = []"
    if "set (map fst payload) \<inter> set allowed = {}"
    using that by (auto simp: filter_empty_conv)
  then have 1: "set (map fst payload) \<inter> set allowed = {} \<longrightarrow>
      update_time_entry now (Some store) entry_id payload =
        (Inl (HTTPException 400 ''No valid fields to update''), Some store)"
    by (simp add: update_time_entry_def)
  have 2: "update_time_entry now db entry_id body2 =
       update_time_entry now db entry_id (filter (\<lambda>(k, v). k \<in> set allowed) body2)"
    by (simp only: update_time_entry_def filter_allowed_idem)
  from 1 2 show ?thesis by blast
qed

theorem update_time_entry_no_valid_fields_witness:
  "set (map fst [(''worked_minutes'', PInt 0), (''_id'', PStr ''x'')]) \<inter> set allowed = {}
   \<and> update_time_entry ex_end (Some [ex_entry]) ''65e1a0000000000000000001''
        [(''worked_minutes'', PInt 0), (''_id'', PStr ''x'')] =
      (Inl (HTTPException 400 ''No valid fields to update''), Some [ex_entry])"
proof -
  have h: "set (map fst [(''worked_minutes'', PInt 0), (''_id'', PStr ''x'')]) \<inter> set allowed = {}"
    by (simp add: allowed_def)
  from update_time_entry_no_valid_fields
         [of "[(''worked_minutes'', PInt 0), (''_id'', PStr ''x'')]" ex_end "[ex_entry]"
             "''65e1a0000000000000000001''"] h
  show ?thesis by blast
qed

text \<open>
  C7. The request body is JSON, so a new \<open>start_time\<close> arrives as a string. On the
  entry 09:00 to 17:00 with a 30 minute break and 450 stored minutes, the update to
  the start \<open>"2024-03-01T10:00:00Z"\<close> is written to the store, the recomputation then
  raises \<open>AttributeError\<close> (a string has no \<open>tzinfo\<close>), and the stored
  \<open>worked_minutes\<close> stays 450.
\<close>

theorem update_time_entry_stale_worked_minutes:
  "update_time_entry now (Some [ex_entry]) ''65e1a0000000000000000001''
      [(''start_time'', PStr ''2024-03-01T10:00:00Z'')] =
   (Inl AttributeError,
    Some [\<lparr>oid = ''65e1a0000000000000000001'',
      body = [(''client_id'', PStr ''65e1a00000000000000000c1''),
              (''start_time'', PStr ''2024-03-01T10:00:00Z''),
              (''end_time'', PDatetime ex_end),
              (''break_minutes'', PInt 30),
              (''worked_minutes'', PInt 450)]\<rparr>])"
  by (simp add: update_time_entry_def to_object_id_ex allowed_def ex_entry_def set_fields_def
      find_one_def doc_worked_minutes_def dict_get_def dict_get_default_def
      compute_worked_minutes_def)

section \<open>Calendar lemmas\<close>

text \<open>The ordinal of the date that \<open>ord2ymd\<close> returns is the ordinal it was given.\<close>

lemma dby_decomp:
  fixes a b c d :: int
  assumes "0 \<le> b" "b \<le> 3" "0 \<le> c" "c \<le> 24" "0 \<le> d" "d \<le> 3"
  shows "days_before_year (400 * a + 100 * b + 4 * c + d + 1) = 146097 * a + 36524 * b + 1461 * c + 365 * d"
proof -
  let ?y = "400 * a + 100 * b + 4 * c + d"
  have 1: "?y div 4 = 100 * a + 25 * b + c"
    by (rule int_div_pos_eq [where r = d]) (use assms in simp_all)
  have 2: "?y div 100 = 4 * a + b"
    by (rule int_div_pos_eq [where r = "4 * c + d"]) (use assms in simp_all)
  have 3: "?y div 400 = a"
    by (rule int_div_pos_eq [where r = "100 * b + 4 * c + d"]) (use assms in simp_all)
  show ?thesis unfolding days_before_year_def Let_def using 1 2 3 by simp
qed

lemma is_leap_decomp:
  fixes a b c d :: int
  assumes "0 \<le> b" "b \<le> 3" "0 \<le> c" "c \<le> 24" "0 \<le> d" "d \<le> 3"
  shows "is_leap (400 * a + 100 * b + 4 * c + d + 1) = (d = 3 \<and> (c \<noteq> 24 \<or> b = 3))"
proof -
  let ?Y = "400 * a + 100 * b + 4 * c + d + 1"
  show ?thesis
  proof (cases "d = 3")
    case False
    have "?Y mod 4 = d + 1"
      by (rule int_mod_pos_eq [where q = "100 * a + 25 * b + c"]) (use assms False in simp_all)
    with False assms show ?thesis by (simp add: is_leap_def)
  next
    case d3: True
    have m4: "?Y mod 4 = 0"
      by (rule int_mod_pos_eq [where q = "100 * a + 25 * b + c + 1"]) (use d3 in simp_all)
    show ?thesis
    proof (cases "c = 24")
      case False
      have "?Y mod 100 = 4 * (c + 1)"
        by (rule int_mod_pos_eq [where q = "4 * a + b"]) (use assms d3 False in simp_all)
      with False d3 m4 assms show ?thesis by (simp add: is_leap_def)
    next
      case c24: True
      have m100: "?Y mod 100 = 0"
        by (rule int_mod_pos_eq [where q = "4 * a + b + 1"]) (use d3 c24 in simp_all)
      show ?thesis
      proof (cases "b = 3")
        case True
        have "?Y mod 400 = 0"
          by (rule int_mod_pos_eq [where q = "a + 1"]) (use d3 c24 True in simp_all)
        with True d3 c24 m4 show ?thesis by (simp add: is_leap_def)
      next
        case False
        have "?Y mod 400 = 100 * (b + 1)"
          by (rule int_mod_pos_eq [where q = a]) (use assms d3 c24 False in simp_all)
        with False d3 c24 m4 m100 assms show ?thesis by (simp add: is_leap_def)
      qed
    qed
  qed
qed


lemma ord2ymd_roundtrip:
  assumes "1 \<le> n"
  shows "(case ord2ymd n of (y, m, d) \<Rightarrow> ymd2ord y m d) = n"
proof -
  define n0 where "n0 = n - 1"
  define a where "a = n0 div 146097"
  define r400 where "r400 = n0 mod 146097"
  define b where "b = r400 div 36524"
  define r100 where "r100 = r400 mod 36524"
  define c where "c = r100 div 1461"
  define r4 where "r4 = r100 mod 1461"
  define d where "d = r4 div 365"
  define r1 where "r1 = r4 mod 365"
  have n0: "n0 = 146097 * a + r400" by (simp add: a_def r400_def)
  have e400: "r400 = 36524 * b + r100" by (simp add: b_def r100_def)
  have e100: "r100 = 1461 * c + r4" by (simp add: c_def r4_def)
  have e4: "r4 = 365 * d + r1" by (simp add: d_def r1_def)
  have b400: "0 \<le> r400" "r400 < 146097" by (simp_all add: r400_def)
  have b100: "0 \<le> r100" "r100 < 36524" by (simp_all add: r100_def)
  have b4: "0 \<le> r4" "r4 < 1461" by (simp_all add: r4_def)
  have b1: "0 \<le> r1" "r1 < 365" by (simp_all add: r1_def)
  have bb: "0 \<le> b" "b \<le> 4" using b400 e400 b100 by linarith+
  have bc: "0 \<le> c" "c \<le> 24" using b100 e100 b4 by linarith+
  have bd: "0 \<le> d" "d \<le> 4" using b4 e4 b1 by linarith+
  have unf: "ord2ymd n =
     (let y = a * 400 + 1 + b * 100 + c * 4 + d
      in if d = 4 \<or> b = 4 then (y - 1, 12, 31)
         else
           let leapyear = (d = 3 \<and> (c \<noteq> 24 \<or> b = 3));
               m = (r1 + 50) div 32;
               preceding = DAYS_BEFORE_MONTH ! nat m + (if m > 2 \<and> leapyear then 1 else 0)
           in if preceding > r1
              then
                let m' = m - 1;
                    preceding' = preceding
                       - (DAYS_IN_MONTH ! nat m' + (if m' = 2 \<and> leapyear then 1 else 0))
                in (y, m', r1 - preceding' + 1)
              else (y, m, r1 - preceding + 1))"
    unfolding ord2ymd_def Let_def n0_def a_def r400_def b_def r100_def c_def r4_def d_def r1_def
    by (rule refl)
  show ?thesis
  proof (cases "b = 4")
    case True
    then have "r400 = 146096" "r100 = 0" using b400 e400 b100 by linarith+
    then have z: "c = 0" "d = 0" "r1 = 0" "r4 = 0" using e100 bc b4 e4 bd b1 by linarith+
    have "days_before_year (400 * a + 100 * 3 + 4 * 24 + 3 + 1)
            = 146097 * a + 36524 * 3 + 1461 * 24 + 365 * 3"
      by (rule dby_decomp) simp_all
    moreover have "is_leap (400 * a + 100 * 3 + 4 * 24 + 3 + 1)"
      using is_leap_decomp [of 3 24 3 a] by simp
    ultimately show ?thesis
      unfolding unf using True z n0 \<open>r400 = 146096\<close>
      by (simp add: ymd2ord_def days_before_month_def DAYS_BEFORE_MONTH_def n0_def mult.commute)
  next
    case bne: False
    then have b3: "b \<le> 3" using bb by simp
    show ?thesis
    proof (cases "d = 4")
      case True
      then have r10: "r1 = 0" "r4 = 1460" using e4 b4 b1 by linarith+
      have c23: "c \<le> 23" using e100 b100 r10 by linarith
      have "days_before_year (400 * a + 100 * b + 4 * c + 3 + 1)
            = 146097 * a + 36524 * b + 1461 * c + 365 * 3"
        by (rule dby_decomp) (use bb b3 bc in simp_all)
      moreover have "is_leap (400 * a + 100 * b + 4 * c + 3 + 1)"
        using is_leap_decomp [of b c 3 a] bb b3 bc c23 by simp
      ultimately show ?thesis
        unfolding unf using True r10 n0 e400 e100
        by (simp add: ymd2ord_def days_before_month_def DAYS_BEFORE_MONTH_def n0_def
            algebra_simps)
    next
      case dne: False
      then have d3: "d \<le> 3" using bd by simp
      let ?y = "400 * a + 100 * b + 4 * c + d + 1"
      let ?leap = "(d = 3 \<and> (c \<noteq> 24 \<or> b = 3))"
      have dby: "days_before_year ?y = 146097 * a + 36524 * b + 1461 * c + 365 * d"
        by (rule dby_decomp) (use bb b3 bc bd d3 in simp_all)
      have leap: "is_leap ?y = ?leap"
        by (rule is_leap_decomp) (use bb b3 bc bd d3 in simp_all)
      have yy: "a * 400 + 1 + b * 100 + c * 4 + d = ?y" by simp
      have nn: "n = days_before_year ?y + r1 + 1"
        using dby n0 e400 e100 e4 by (simp add: n0_def)
      define m where "m = (r1 + 50) div 32"
      have m_bounds: "1 \<le> m" "m \<le> 12"
      proof -
        have "(32::int) div 32 \<le> (r1 + 50) div 32"
          by (rule zdiv_mono1) (use b1 in simp_all)
        then show "1 \<le> m" by (simp add: m_def)
        have "(r1 + 50) div 32 \<le> (414::int) div 32"
          by (rule zdiv_mono1) (use b1 in simp_all)
        then show "m \<le> 12" by (simp add: m_def)
      qed
      define pre where "pre = DAYS_BEFORE_MONTH ! nat m + (if m > 2 \<and> ?leap then 1 else 0)"
      have pre_eq: "pre = days_before_month ?y m"
        by (simp add: pre_def days_before_month_def leap)
      have unf2: "ord2ymd n =
          (if pre > r1
           then (?y, m - 1,
                 r1 - (pre - (DAYS_IN_MONTH ! nat (m - 1)
                               + (if m - 1 = 2 \<and> ?leap then 1 else 0))) + 1)
           else (?y, m, r1 - pre + 1))"
        unfolding unf Let_def pre_def m_def yy using bne dne
        by (simp only: simp_thms if_False)
      show ?thesis
      proof (cases "pre > r1")
        case False
        have "ymd2ord ?y m (r1 - pre + 1) = n"
          using nn pre_eq by (simp add: ymd2ord_def)
        then show ?thesis
          unfolding unf2 using False by simp
      next
        case True
        have m2: "2 \<le> m"
        proof (rule ccontr)
          assume "\<not> 2 \<le> m"
          then have "m = 1" using m_bounds by simp
          then have "pre = 0" by (simp add: pre_def DAYS_BEFORE_MONTH_def)
          then show False using True b1 by simp
        qed
        have "m \<in> {2, 3, 4, 5, 6, 7, 8, 9, 10, 11, 12}" using m2 m_bounds by simp arith
        then have step: "pre - (DAYS_IN_MONTH ! nat (m - 1) + (if m - 1 = 2 \<and> ?leap then 1 else 0))
                 = days_before_month ?y (m - 1)"
          by (auto simp: pre_def days_before_month_def leap DAYS_BEFORE_MONTH_def DAYS_IN_MONTH_def)
        have "ymd2ord ?y (m - 1) (r1 - days_before_month ?y (m - 1) + 1) = n"
          using nn by (simp add: ymd2ord_def)
        then show ?thesis
          unfolding unf2 step using True by simp
      qed
    qed
  qed
qed

lemma days_before_year_nonneg:
  assumes "1 \<le> y" shows "0 \<le> days_before_year y"
proof -
  have "(y - 1) div 100 \<le> (y - 1) div 1"
    by (rule zdiv_mono2) (use assms in simp_all)
  moreover have "0 \<le> (y - 1) div 4" "0 \<le> (y - 1) div 400"
    using assms by (simp_all add: pos_imp_zdiv_nonneg_iff)
  ultimately show ?thesis
    using assms by (simp add: days_before_year_def Let_def)
qed

lemma days_before_year_upper:
  assumes "1 \<le> y" "y \<le> 9998" shows "days_before_year y \<le> 3651330"
proof -
  have 1: "(y - 1) div 4 \<le> 9997 div 4"
    by (rule zdiv_mono1) (use assms in simp_all)
  have 2: "(y - 1) div 400 \<le> 9997 div 400"
    by (rule zdiv_mono1) (use assms in simp_all)
  have 3: "0 \<le> (y - 1) div 100"
    using assms by (simp add: pos_imp_zdiv_nonneg_iff)
  show ?thesis
    using assms 1 2 3 by (simp add: days_before_year_def Let_def)
qed

lemma month_cases:
  fixes m :: int
  assumes "1 \<le> m" "m \<le> 12"
  shows "m \<in> {1, 2, 3, 4, 5, 6, 7, 8, 9, 10, 11, 12}"
  using assms by simp arith

lemma days_in_month_ge: "1 \<le> m \<Longrightarrow> m \<le> 12 \<Longrightarrow> 28 \<le> days_in_month y m"
  using month_cases [of m] by (auto simp: days_in_month_def DAYS_IN_MONTH_def)

lemma days_before_month_day:
  assumes "1 \<le> m" "m \<le> 12" "1 \<le> d" "d \<le> days_in_month y m"
  shows "1 \<le> days_before_month y m + d" "days_before_month y m + d \<le> 366"
  using month_cases [OF assms(1,2)] assms(3,4)
  by (auto simp: days_before_month_def days_in_month_def DAYS_BEFORE_MONTH_def DAYS_IN_MONTH_def
      split: if_splits)

lemma days_before_month_next:
  assumes "1 \<le> m" "m \<le> 11"
  shows "days_before_month y (m + 1) = days_before_month y m + days_in_month y m"
proof -
  have "m \<in> {1, 2, 3, 4, 5, 6, 7, 8, 9, 10, 11}" using assms by simp arith
  then show ?thesis
    by (auto simp: days_before_month_def days_in_month_def DAYS_BEFORE_MONTH_def DAYS_IN_MONTH_def)
qed

lemma div_next:
  fixes y k :: int
  assumes "0 < k"
  shows "y div k = (y - 1) div k + (if y mod k = 0 then 1 else 0)"
proof -
  define q where "q = (y - 1) div k"
  define r where "r = (y - 1) mod k"
  have y: "y = k * q + r + 1" by (simp add: q_def r_def)
  have r: "0 \<le> r" "r < k" using assms by (simp_all add: r_def)
  show ?thesis
  proof (cases "r + 1 = k")
    case True
    have "y div k = q + 1"
      by (rule int_div_pos_eq [where r = 0]) (use True y assms in \<open>simp_all add: algebra_simps\<close>)
    moreover have "y mod k = 0"
      by (rule int_mod_pos_eq [where q = "q + 1"]) (use True y assms in \<open>simp_all add: algebra_simps\<close>)
    ultimately show ?thesis by (simp add: q_def)
  next
    case False
    have "y div k = q"
      by (rule int_div_pos_eq [where r = "r + 1"]) (use False y r in simp_all)
    moreover have "y mod k = r + 1"
      by (rule int_mod_pos_eq [where q = q]) (use False y r in simp_all)
    ultimately show ?thesis using r by (simp add: q_def)
  qed
qed

lemma days_before_year_next:
  "days_before_year (y + 1) = days_before_year y + (if is_leap y then 366 else 365)"
proof -
  have m4: "y mod 4 = 0" if "y mod 100 = 0"
    using that mod_mod_cancel [of 4 100 y] by simp
  have m100: "y mod 100 = 0" if "y mod 400 = 0"
    using that mod_mod_cancel [of 100 400 y] by simp
  have d4: "y div 4 = (y - 1) div 4 + (if y mod 4 = 0 then 1 else 0)"
    by (rule div_next) simp
  have d100: "y div 100 = (y - 1) div 100 + (if y mod 100 = 0 then 1 else 0)"
    by (rule div_next) simp
  have d400: "y div 400 = (y - 1) div 400 + (if y mod 400 = 0 then 1 else 0)"
    by (rule div_next) simp
  have "days_before_year (y + 1) = days_before_year y + 365
          + (if y mod 4 = 0 then 1 else 0) - (if y mod 100 = 0 then 1 else 0)
          + (if y mod 400 = 0 then 1 else 0)"
    unfolding days_before_year_def Let_def by (simp only: add_diff_cancel_right' d4 d100 d400) simp
  then show ?thesis
    using m4 m100 by (cases "y mod 4 = 0"; cases "y mod 100 = 0"; cases "y mod 400 = 0")
      (simp_all add: is_leap_def)
qed

lemma toordinal_bounds:
  assumes "valid_datetime d"
  shows "1 \<le> toordinal d" and "year d \<le> 9998 \<Longrightarrow> toordinal d + 7 \<le> MAXORDINAL"
proof -
  have v: "1 \<le> year d" "1 \<le> month d" "month d \<le> 12" "1 \<le> day d"
    "day d \<le> days_in_month (year d) (month d)"
    using assms by (simp_all add: valid_datetime_def)
  have md: "1 \<le> days_before_month (year d) (month d) + day d"
    "days_before_month (year d) (month d) + day d \<le> 366"
    using days_before_month_day [OF v(2,3,4,5)] by simp_all
  show "1 \<le> toordinal d"
    using days_before_year_nonneg [OF v(1)] md by (simp add: toordinal_def ymd2ord_def)
  show "toordinal d + 7 \<le> MAXORDINAL" if "year d \<le> 9998"
    using days_before_year_upper [OF v(1) that] md
    by (simp add: toordinal_def ymd2ord_def MAXORDINAL_def)
qed

lemma toordinal_from_ordinal_midnight:
  "1 \<le> n \<Longrightarrow> toordinal (from_ordinal_midnight n tz) = n"
  using ord2ymd_roundtrip [of n]
  by (auto simp: from_ordinal_midnight_def toordinal_def split: prod.splits)

lemma from_ordinal_midnight_fields:
  "hour (from_ordinal_midnight n tz) = 0" "minute (from_ordinal_midnight n tz) = 0"
  "second (from_ordinal_midnight n tz) = 0" "microsecond (from_ordinal_midnight n tz) = 0"
  "tzinfo (from_ordinal_midnight n tz) = tz"
  by (simp_all add: from_ordinal_midnight_def split: prod.splits)

lemma datetime_add_days:
  assumes "hour d = 0" "minute d = 0" "second d = 0" "microsecond d = 0"
    and "0 < toordinal d + k" "toordinal d + k \<le> MAXORDINAL"
  shows "datetime_add d (timedelta_days k) = Inr (from_ordinal_midnight (toordinal d + k) (tzinfo d))"
proof -
  have delta: "((toordinal d * 86400 + hour d * 3600 + minute d * 60 + second d) * 1000000
                    + microsecond d) + timedelta_days k = (toordinal d + k) * 86400000000"
    using assms(1-4) by (simp add: timedelta_days_def algebra_simps)
  show ?thesis
    unfolding datetime_add_def delta Let_def from_ordinal_midnight_def
    using assms(5,6) by (simp split: prod.splits)
qed

lemma utc_micros_midnight:
  assumes "hour d = 0" "minute d = 0" "second d = 0" "microsecond d = 0"
  shows "utc_micros d = toordinal d * 86400000000 - (case tzinfo d of None \<Rightarrow> 0 | Some off \<Rightarrow> off)"
  using assms by (simp add: utc_micros_def)

lemma weekday_range: "0 \<le> weekday d" "weekday d \<le> 6"
  by (simp_all add: weekday_def) 

lemma weekday_le_ordinal:
  assumes "1 \<le> toordinal d" shows "weekday d \<le> toordinal d - 1"
proof -
  have "(toordinal d + 6) mod 7 = (toordinal d - 1) mod 7"
    using mod_add_self2 [of "toordinal d - 1" 7] by (simp add: algebra_simps)
  also have "\<dots> \<le> toordinal d - 1"
    by (rule zmod_le_nonneg_dividend) (use assms in simp)
  finally show ?thesis by (simp add: weekday_def)
qed

lemma spec_midnight_record:
  "spec_midnight d = \<lparr>year = year d, month = month d, day = day d, hour = 0, minute = 0,
      second = 0, microsecond = 0, tzinfo = tzinfo d\<rparr>"
  by (cases d) (simp add: spec_midnight_def)

lemma spec_first_of_month_fields:
  "year (spec_first_of_month y m tz) = y" "month (spec_first_of_month y m tz) = m"
  "day (spec_first_of_month y m tz) = 1" "hour (spec_first_of_month y m tz) = 0"
  "minute (spec_first_of_month y m tz) = 0" "second (spec_first_of_month y m tz) = 0"
  "microsecond (spec_first_of_month y m tz) = 0" "tzinfo (spec_first_of_month y m tz) = tz"
  by (simp_all add: spec_first_of_month_def)

lemma get_summary_ranges_eq:
  assumes v: "valid_datetime now" and y2: "2 \<le> year now" and y9: "year now \<le> 9998"
  shows "get_summary_ranges now = Inr
    [(''today'', spec_midnight now, from_ordinal_midnight (toordinal now + 1) (tzinfo now)),
     (''week'', from_ordinal_midnight (toordinal now - weekday now) (tzinfo now),
                from_ordinal_midnight (toordinal now - weekday now + 7) (tzinfo now)),
     (''month'', spec_first_of_month (year now) (month now) (tzinfo now),
        (if month now = 12 then spec_first_of_month (year now + 1) 1 (tzinfo now)
         else spec_first_of_month (year now) (month now + 1) (tzinfo now))),
     (''prev_month'',
        (if month now = 1 then spec_first_of_month (year now - 1) 12 (tzinfo now)
         else spec_first_of_month (year now) (month now - 1) (tzinfo now)),
        spec_first_of_month (year now) (month now) (tzinfo now))]"
proof -
  let ?ds = "spec_midnight now"
  let ?tz = "tzinfo now"
  have vm: "valid_datetime ?ds"
    using v by (simp add: valid_datetime_def spec_midnight_def)
  have ds: "replace_time now 0 0 0 0 = Inr ?ds"
    using vm by (simp add: replace_time_def datetime_new_def spec_midnight_record)
  have ord: "toordinal ?ds = toordinal now"
    by (simp add: toordinal_def spec_midnight_def)
  have wd: "weekday ?ds = weekday now"
    by (simp add: weekday_def ord)
  have t1: "1 \<le> toordinal now" and t9: "toordinal now + 7 \<le> MAXORDINAL"
    using toordinal_bounds [OF v] y9 by simp_all
  have wle: "weekday now \<le> toordinal now - 1"
    by (rule weekday_le_ordinal [OF t1])
  have w0: "0 \<le> weekday now" by (rule weekday_range)
  have mid: "hour ?ds = 0" "minute ?ds = 0" "second ?ds = 0" "microsecond ?ds = 0"
    "tzinfo ?ds = ?tz"
    by (simp_all add: spec_midnight_def)
  let ?ws = "from_ordinal_midnight (toordinal now - weekday now) ?tz"
  have ws: "datetime_add ?ds (- timedelta_days (weekday ?ds)) = Inr ?ws"
  proof -
    have "datetime_add ?ds (timedelta_days (- weekday now))
            = Inr (from_ordinal_midnight (toordinal ?ds + (- weekday now)) (tzinfo ?ds))"
      by (rule datetime_add_days) (use mid ord wle w0 t9 in simp_all)
    then show ?thesis by (simp add: wd ord mid timedelta_days_def)
  qed
  have de: "datetime_add ?ds (timedelta_days 1)
              = Inr (from_ordinal_midnight (toordinal now + 1) ?tz)"
    using datetime_add_days [of ?ds 1] mid ord t1 t9 by simp
  have ows: "toordinal ?ws = toordinal now - weekday now"
    by (rule toordinal_from_ordinal_midnight) (use wle in simp)
  have we: "datetime_add ?ws (timedelta_days 7)
              = Inr (from_ordinal_midnight (toordinal now - weekday now + 7) ?tz)"
    using datetime_add_days [of ?ws 7] from_ordinal_midnight_fields [of "toordinal now - weekday now" ?tz]
      ows wle w0 t9 by simp
  have vy: "1 \<le> year now" "1 \<le> month now" "month now \<le> 12"
    using v by (simp_all add: valid_datetime_def)
  have tzv: "(case ?tz of None \<Rightarrow> True | Some off \<Rightarrow> - 86400000000 < off \<and> off < 86400000000)"
    using v by (simp add: valid_datetime_def)
  have vfirst: "valid_datetime (spec_first_of_month y m ?tz)"
    if "1 \<le> y" "y \<le> 9999" "1 \<le> m" "m \<le> 12" for y m
    using that tzv days_in_month_ge [of m y]
    by (simp add: valid_datetime_def spec_first_of_month_def)
  have rd: "replace_date x y m 1 = Inr (spec_first_of_month y m ?tz)"
    if "1 \<le> y" "y \<le> 9999" "1 \<le> m" "m \<le> 12" "hour x = 0" "minute x = 0" "second x = 0"
      "microsecond x = 0" "tzinfo x = ?tz" for x y m
    using vfirst [OF that(1-4)] that(5-9)
    by (simp add: replace_date_def datetime_new_def spec_first_of_month_def)
  let ?ms = "spec_first_of_month (year now) (month now) ?tz"
  have ms: "replace_date ?ds (year ?ds) (month ?ds) 1 = Inr ?ms"
    using rd [of "year now" "month now" ?ds] vy y9 mid by (simp add: spec_midnight_def)
  note msf = spec_first_of_month_fields
  have pm: "(if month ?ms = 1
            then replace_date ?ms (year ?ms - 1) 12 (day ?ms)
            else replace_date ?ms (year ?ms) (month ?ms - 1) (day ?ms))
          = Inr (if month now = 1 then spec_first_of_month (year now - 1) 12 ?tz
                 else spec_first_of_month (year now) (month now - 1) ?tz)"
  proof (cases "month now = 1")
    case True
    have "replace_date ?ms (year now - 1) 12 1 = Inr (spec_first_of_month (year now - 1) 12 ?tz)"
      by (rule rd) (use y2 y9 in \<open>simp_all add: msf\<close>)
    then show ?thesis using True by (simp add: msf)
  next
    case False
    have "replace_date ?ms (year now) (month now - 1) 1
            = Inr (spec_first_of_month (year now) (month now - 1) ?tz)"
      by (rule rd) (use y2 y9 vy False in \<open>simp_all add: msf\<close>)
    then show ?thesis using False by (simp add: msf)
  qed
  have nm: "(if month ?ms = 12
            then replace_date ?ms (year ?ms + 1) 1 (day ?ms)
            else replace_date ?ms (year ?ms) (month ?ms + 1) (day ?ms))
          = Inr (if month now = 12 then spec_first_of_month (year now + 1) 1 ?tz
                 else spec_first_of_month (year now) (month now + 1) ?tz)"
  proof (cases "month now = 12")
    case True
    have "replace_date ?ms (year now + 1) 1 1 = Inr (spec_first_of_month (year now + 1) 1 ?tz)"
      by (rule rd) (use y2 y9 in \<open>simp_all add: msf\<close>)
    then show ?thesis using True by (simp add: msf)
  next
    case False
    have "replace_date ?ms (year now) (month now + 1) 1
            = Inr (spec_first_of_month (year now) (month now + 1) ?tz)"
      by (rule rd) (use y2 y9 vy False in \<open>simp_all add: msf\<close>)
    then show ?thesis using False by (simp add: msf)
  qed
  show ?thesis
    unfolding get_summary_ranges_def
    by (simp only: ds ws ms pm nm de we sum.case)
qed

section \<open>The clamp of the duration engine\<close>

text \<open>The positions of two datetimes are less than \<open>4 * 10 ^ 17\<close> microseconds apart.\<close>

lemma days_before_year_le:
  assumes "1 \<le> y" "y \<le> 9999" shows "days_before_year y \<le> 3651793"
proof -
  have 1: "(y - 1) div 4 \<le> 9998 div 4"
    by (rule zdiv_mono1) (use assms in simp_all)
  have 2: "(y - 1) div 400 \<le> 9998 div 400"
    by (rule zdiv_mono1) (use assms in simp_all)
  have 3: "0 \<le> (y - 1) div 100"
    using assms by (simp add: pos_imp_zdiv_nonneg_iff)
  show ?thesis
    using assms 1 2 3 by (simp add: days_before_year_def Let_def)
qed

lemma utc_micros_valid:
  assumes "valid_datetime d"
  shows "0 \<le> utc_micros d" and "utc_micros d \<le> 400000000000000000"
proof -
  have v: "1 \<le> year d" "year d \<le> 9999" "1 \<le> month d" "month d \<le> 12" "1 \<le> day d"
    "day d \<le> days_in_month (year d) (month d)"
    using assms by (simp_all add: valid_datetime_def)
  have f: "0 \<le> hour d" "hour d < 24" "0 \<le> minute d" "minute d < 60"
    "0 \<le> second d" "second d < 60" "0 \<le> microsecond d" "microsecond d < 1000000"
    using assms by (simp_all add: valid_datetime_def)
  have md: "days_before_month (year d) (month d) + day d \<le> 366"
    using days_before_month_day [OF v(3,4,5,6)] by simp
  have lo: "1 \<le> toordinal d" by (rule toordinal_bounds(1) [OF assms])
  have hi: "toordinal d \<le> 3652159"
    using days_before_year_le [OF v(1,2)] md by (simp add: toordinal_def ymd2ord_def)
  define off where "off = (case tzinfo d of None \<Rightarrow> 0 | Some x \<Rightarrow> x)"
  have o: "- 86400000000 < off" "off < 86400000000"
    using assms by (simp_all add: off_def valid_datetime_def split: option.splits)
  define sec where "sec = toordinal d * 86400 + hour d * 3600 + minute d * 60 + second d"
  have u: "utc_micros d = (sec * 1000000 + microsecond d) - off"
    by (simp add: utc_micros_def off_def sec_def)
  have s: "86400 \<le> sec" "sec \<le> 315546623999"
    unfolding sec_def using lo hi f by linarith+
  show "0 \<le> utc_micros d" unfolding u using s f o by linarith
  show "utc_micros d \<le> 400000000000000000" unfolding u using s f o by linarith
qed

lemma utc_micros_apart:
  assumes "valid_datetime s" and "valid_datetime e"
  shows "\<bar>utc_micros e - utc_micros s\<bar> \<le> 1000000000000000000"
  using utc_micros_valid [OF assms(1)] utc_micros_valid [OF assms(2)] by linarith

lemma valid_ex_start_end: "valid_datetime ex_start" "valid_datetime ex_end"
  by (simp_all add: valid_datetime_def ex_start_def ex_end_def days_in_month_def
      DAYS_IN_MONTH_def is_leap_def)

text \<open>
  C2, as stated, fails. With the start at 17:00 and the end at 09:00 of the same day
  the end precedes the start, and with a break of -1000 minutes (an integer, which
  \<open>TimeEntryIn\<close> of \<open>main.py\<close> lets through) the result is 520, not 0.
\<close>

theorem compute_worked_minutes_negative_break:
  "utc_micros ex_start < utc_micros ex_end
   \<and> compute_worked_minutes ex_end (PDatetime ex_end) (PDatetime ex_start) (PInt (- 1000))
       = Inr 520"
proof -
  have "\<bar>utc_micros ex_start - utc_micros ex_end\<bar> < 17179869184000000"
    by (simp add: utc_micros_ex_start utc_micros_ex_end)
  then have "compute_worked_minutes ex_end (PDatetime ex_end) (PDatetime ex_start)
      (PInt (- 1000)) = Inr (max 0 ((utc_micros ex_start - utc_micros ex_end) div 60000000
                                    - (- 1000)))"
    by (rule compute_worked_minutes_exact)
  then show ?thesis by (simp add: utc_micros_ex_start utc_micros_ex_end)
qed

text \<open>
  C2, amended. On resolved inputs (a start instant, an end instant or none, a break or
  none; the instants being datetimes as Python builds them) \<open>compute_worked_minutes\<close>
  never raises and never returns a negative number. When the break exceeds the elapsed
  whole minutes the result is exactly 0, and when the end precedes the start and the
  break is at least 0 the result is exactly 0.
\<close>

theorem compute_worked_minutes_clamps:
  fixes now :: datetime and eo :: "datetime option" and bo :: "int option"
  defines "e \<equiv> (case eo of None \<Rightarrow> now | Some x \<Rightarrow> x)"
    and "b \<equiv> (case bo of None \<Rightarrow> 0 | Some n \<Rightarrow> n)"
  assumes "valid_datetime s" and "valid_datetime e"
  shows "\<exists>r. compute_worked_minutes now (PDatetime s)
               (case eo of None \<Rightarrow> PNone | Some x \<Rightarrow> PDatetime x)
               (case bo of None \<Rightarrow> PNone | Some n \<Rightarrow> PInt n) = Inr r
             \<and> 0 \<le> r
             \<and> ((utc_micros e - utc_micros s) div 60000000 < b \<longrightarrow> r = 0)
             \<and> (utc_micros e < utc_micros s \<and> 0 \<le> b \<longrightarrow> r = 0)"
proof -
  let ?td = "utc_micros e - utc_micros s"
  have eq: "compute_worked_minutes now (PDatetime s)
               (case eo of None \<Rightarrow> PNone | Some x \<Rightarrow> PDatetime x)
               (case bo of None \<Rightarrow> PNone | Some n \<Rightarrow> PInt n)
             = Inr (max 0 (whole_minutes ?td - b))"
    unfolding e_def b_def by (rule compute_worked_minutes_resolved)
  have up: "whole_minutes ?td \<le> ?td div 60000000 + 1"
    by (rule whole_minutes_bounds(2) [OF utc_micros_apart [OF assms(3,4)]])
  have neg: "?td div 60000000 < 0" if "utc_micros e < utc_micros s"
    using that by (simp add: neg_imp_zdiv_neg_iff)
  have 1: "max 0 (whole_minutes ?td - b) = 0" if "?td div 60000000 < b"
    using that up by simp
  have 2: "max 0 (whole_minutes ?td - b) = 0" if "utc_micros e < utc_micros s" "0 \<le> b"
    using neg [OF that(1)] that(2) up by simp
  show ?thesis
  proof (rule exI [where x = "max 0 (whole_minutes ?td - b)"], intro conjI impI)
    show "compute_worked_minutes now (PDatetime s)
               (case eo of None \<Rightarrow> PNone | Some x \<Rightarrow> PDatetime x)
               (case bo of None \<Rightarrow> PNone | Some n \<Rightarrow> PInt n)
             = Inr (max 0 (whole_minutes ?td - b))" by (rule eq)
    show "0 \<le> max 0 (whole_minutes ?td - b)" by simp
    show "max 0 (whole_minutes ?td - b) = 0" if "?td div 60000000 < b"
      using that by (rule 1)
    show "max 0 (whole_minutes ?td - b) = 0" if "utc_micros e < utc_micros s \<and> 0 \<le> b"
      using that 2 by blast
  qed
qed

theorem compute_worked_minutes_clamps_witness:
  "valid_datetime ex_end \<and> valid_datetime ex_start
   \<and> compute_worked_minutes ex_end (PDatetime ex_end) (PDatetime ex_start) (PInt 30) = Inr 0
   \<and> (utc_micros ex_start - utc_micros ex_end) div 60000000 < 30
   \<and> utc_micros ex_start < utc_micros ex_end"
proof -
  have 1: "(utc_micros ex_start - utc_micros ex_end) div 60000000 < 30"
    by (simp add: utc_micros_ex_start utc_micros_ex_end)
  have 2: "utc_micros ex_start < utc_micros ex_end"
    by (simp add: utc_micros_ex_start utc_micros_ex_end)
  have v: "valid_datetime (case Some ex_start of None \<Rightarrow> ex_end | Some x \<Rightarrow> x)"
    by (simp add: valid_ex_start_end)
  from compute_worked_minutes_clamps
         [where s = ex_end and now = ex_end and eo = "Some ex_start" and bo = "Some 30",
          OF valid_ex_start_end(2) v] 1 2
  show ?thesis by (auto simp: valid_ex_start_end)
qed

section \<open>The ranges of the summary\<close>

lemma utc_micros_from_ordinal_midnight:
  "1 \<le> n \<Longrightarrow> utc_micros (from_ordinal_midnight n tz)
     = n * 86400000000 - (case tz of None \<Rightarrow> 0 | Some off \<Rightarrow> off)"
  by (simp add: utc_micros_midnight from_ordinal_midnight_fields toordinal_from_ordinal_midnight)

lemma utc_micros_spec_midnight:
  "utc_micros (spec_midnight d)
     = toordinal d * 86400000000 - (case tzinfo d of None \<Rightarrow> 0 | Some off \<Rightarrow> off)"
  by (simp add: utc_micros_def spec_midnight_def toordinal_def)

lemma weekday_week_start:
  "(t - (t + 6) mod 7 + 6) mod 7 = (0::int)"
proof -
  have "t - (t + 6) mod 7 + 6 = 7 * ((t + 6) div 7)"
    using minus_mod_eq_mult_div [of "t + 6" 7] by simp
  then show ?thesis by simp
qed

text \<open>
  C4. For a clock value \<open>now\<close> of the years 2 to 9998 the four ranges are computed
  without an exception: today runs from midnight of now's date to one day later; the
  week starts \<open>weekday now\<close> days (Monday is 0, so the start is a Monday) before
  today's midnight and lasts seven days; the month runs from the first of now's month
  to the first of the next month, December going to January of the next year; the
  previous month runs from the first of the month before, January going to December of
  the year before, to the first of now's month.
\<close>

theorem get_summary_ranges_calendar:
  assumes "valid_datetime now" and "2 \<le> year now" and "year now \<le> 9998"
  shows "\<exists>today_end week_start week_end.
    get_summary_ranges now = Inr
      [(''today'', spec_midnight now, today_end),
       (''week'', week_start, week_end),
       (''month'', spec_first_of_month (year now) (month now) (tzinfo now),
          (if month now = 12 then spec_first_of_month (year now + 1) 1 (tzinfo now)
           else spec_first_of_month (year now) (month now + 1) (tzinfo now))),
       (''prev_month'',
          (if month now = 1 then spec_first_of_month (year now - 1) 12 (tzinfo now)
           else spec_first_of_month (year now) (month now - 1) (tzinfo now)),
          spec_first_of_month (year now) (month now) (tzinfo now))]
    \<and> utc_micros today_end = utc_micros (spec_midnight now) + timedelta_days 1
    \<and> utc_micros week_start = utc_micros (spec_midnight now) - timedelta_days (weekday now)
    \<and> utc_micros week_end = utc_micros week_start + timedelta_days 7
    \<and> weekday week_start = 0 \<and> 0 \<le> weekday now \<and> weekday now \<le> 6"
proof -
  have t1: "1 \<le> toordinal now" using toordinal_bounds(1) [OF assms(1)] .
  have wle: "weekday now \<le> toordinal now - 1" by (rule weekday_le_ordinal [OF t1])
  have w0: "0 \<le> weekday now" "weekday now \<le> 6" by (rule weekday_range)+
  let ?ws = "from_ordinal_midnight (toordinal now - weekday now) (tzinfo now)"
  have ows: "toordinal ?ws = toordinal now - weekday now"
    by (rule toordinal_from_ordinal_midnight) (use wle in simp)
  have wws: "weekday ?ws = 0"
    unfolding weekday_def [of ?ws] ows by (simp add: weekday_def weekday_week_start)
  show ?thesis
    apply (rule exI [where x = "from_ordinal_midnight (toordinal now + 1) (tzinfo now)"])
    apply (rule exI [where x = ?ws])
    apply (rule exI [where x = "from_ordinal_midnight (toordinal now - weekday now + 7) (tzinfo now)"])
    using t1 wle w0 wws
    by (simp add: get_summary_ranges_eq [OF assms] utc_micros_from_ordinal_midnight
        utc_micros_spec_midnight timedelta_days_def algebra_simps)
qed

lemma toordinal_ex_now: "toordinal ex_now = 738902"
  by (simp add: ex_now_def toordinal_def ymd2ord_def days_before_year_def
      days_before_month_def DAYS_BEFORE_MONTH_def is_leap_def Let_def)

lemma valid_ex_now: "valid_datetime ex_now"
  by (simp add: valid_datetime_def ex_now_def days_in_month_def DAYS_IN_MONTH_def)

lemma from_ordinal_midnight_ex:
  "from_ordinal_midnight 738903 (Some 0) = ex_day 2024 1 18"
  "from_ordinal_midnight 738900 (Some 0) = ex_day 2024 1 15"
  "from_ordinal_midnight 738907 (Some 0) = ex_day 2024 1 22"
  by (simp_all add: from_ordinal_midnight_def ord2ymd_def ex_day_def Let_def
      DAYS_BEFORE_MONTH_def DAYS_IN_MONTH_def)

lemma get_summary_ranges_ex_now:
  "get_summary_ranges ex_now = Inr
     [(''today'', ex_day 2024 1 17, ex_day 2024 1 18),
      (''week'', ex_day 2024 1 15, ex_day 2024 1 22),
      (''month'', ex_day 2024 1 1, ex_day 2024 2 1),
      (''prev_month'', ex_day 2023 12 1, ex_day 2024 1 1)]"
proof -
  have y: "2 \<le> year ex_now" "year ex_now \<le> 9998" by (simp_all add: ex_now_def)
  have wd: "weekday ex_now = 2" by (simp add: weekday_def toordinal_ex_now)
  have f: "year ex_now = 2024" "month ex_now = 1" "tzinfo ex_now = Some 0"
    by (simp_all add: ex_now_def)
  have m: "spec_midnight ex_now = ex_day 2024 1 17"
    by (simp add: spec_midnight_def ex_now_def ex_day_def)
  have s: "spec_first_of_month y m (Some 0) = ex_day y m 1" for y m
    by (simp add: spec_first_of_month_def ex_day_def)
  show ?thesis
    unfolding get_summary_ranges_eq [OF valid_ex_now y] toordinal_ex_now wd f m s
    by (simp add: from_ordinal_midnight_ex)
qed

theorem get_summary_ranges_calendar_witness:
  "valid_datetime ex_now \<and> 2 \<le> year ex_now \<and> year ex_now \<le> 9998
   \<and> get_summary_ranges ex_now = Inr
     [(''today'', ex_day 2024 1 17, ex_day 2024 1 18),
      (''week'', ex_day 2024 1 15, ex_day 2024 1 22),
      (''month'', ex_day 2024 1 1, ex_day 2024 2 1),
      (''prev_month'', ex_day 2023 12 1, ex_day 2024 1 1)]
   \<and> weekday ex_now = 2 \<and> weekday (ex_day 2024 1 15) = 0
   \<and> utc_micros (ex_day 2024 1 18) = utc_micros (ex_day 2024 1 17) + timedelta_days 1
   \<and> utc_micros (ex_day 2024 1 22) = utc_micros (ex_day 2024 1 15) + timedelta_days 7"
proof -
  have y: "2 \<le> year ex_now" "year ex_now \<le> 9998" by (simp_all add: ex_now_def)
  have wd: "weekday ex_now = 2" by (simp add: weekday_def toordinal_ex_now)
  from get_summary_ranges_calendar [OF valid_ex_now y]
  obtain te ws we where
    r: "get_summary_ranges ex_now = Inr
         [(''today'', spec_midnight ex_now, te), (''week'', ws, we),
          (''month'', spec_first_of_month (year ex_now) (month ex_now) (tzinfo ex_now),
             (if month ex_now = 12
              then spec_first_of_month (year ex_now + 1) 1 (tzinfo ex_now)
              else spec_first_of_month (year ex_now) (month ex_now + 1) (tzinfo ex_now))),
          (''prev_month'',
             (if month ex_now = 1
              then spec_first_of_month (year ex_now - 1) 12 (tzinfo ex_now)
              else spec_first_of_month (year ex_now) (month ex_now - 1) (tzinfo ex_now)),
             spec_first_of_month (year ex_now) (month ex_now) (tzinfo ex_now))]"
    and p: "utc_micros te = utc_micros (spec_midnight ex_now) + timedelta_days 1"
      "utc_micros we = utc_micros ws + timedelta_days 7" "weekday ws = 0"
    by blast
  from r have e: "spec_midnight ex_now = ex_day 2024 1 17" "te = ex_day 2024 1 18"
    "ws = ex_day 2024 1 15" "we = ex_day 2024 1 22"
    by (simp_all add: get_summary_ranges_ex_now)
  show ?thesis
    using p valid_ex_now y wd by (simp add: e get_summary_ranges_ex_now)
qed

lemma utc_micros_spec_first_of_month:
  "utc_micros (spec_first_of_month y m tz)
     = (days_before_year y + days_before_month y m + 1) * 86400000000
        - (case tz of None \<Rightarrow> 0 | Some off \<Rightarrow> off)"
  by (simp add: utc_micros_def spec_first_of_month_def toordinal_def ymd2ord_def)

lemma days_before_month_1_12:
  "days_before_month y 1 = 0" "days_before_month y 12 = (if is_leap y then 335 else 334)"
  by (simp_all add: days_before_month_def DAYS_BEFORE_MONTH_def)

lemma days_in_month_12: "days_in_month y 12 = 31"
  by (simp add: days_in_month_def DAYS_IN_MONTH_def)

lemma utc_micros_ex_days:
  "utc_micros (ex_day 2024 1 17) = 63841132800000000"
  "utc_micros (ex_day 2024 1 18) = 63841219200000000"
  "utc_micros (ex_day 2024 1 15) = 63840960000000000"
  "utc_micros (ex_day 2024 1 22) = 63841564800000000"
  "utc_micros (ex_day 2024 1 1) = 63839750400000000"
  "utc_micros (ex_day 2024 2 1) = 63842428800000000"
  "utc_micros (ex_day 2023 12 1) = 63837072000000000"
  "utc_micros ex_now = 63841178096789000"
  by (simp_all add: utc_micros_def ex_day_def ex_now_def toordinal_def ymd2ord_def
      days_before_year_def days_before_month_def DAYS_BEFORE_MONTH_def is_leap_def Let_def)

text \<open>
  C5, as stated, fails. At the clock value 2024-01-17 12:34:56.789 UTC (a Wednesday)
  the instant \<open>now\<close> itself lies in the ranges today, week and month at once.
\<close>

theorem get_summary_ranges_overlap:
  "get_summary_ranges ex_now = Inr
     [(''today'', ex_day 2024 1 17, ex_day 2024 1 18),
      (''week'', ex_day 2024 1 15, ex_day 2024 1 22),
      (''month'', ex_day 2024 1 1, ex_day 2024 2 1),
      (''prev_month'', ex_day 2023 12 1, ex_day 2024 1 1)]
   \<and> spec_in_range ex_now (ex_day 2024 1 17, ex_day 2024 1 18)
   \<and> spec_in_range ex_now (ex_day 2024 1 15, ex_day 2024 1 22)
   \<and> spec_in_range ex_now (ex_day 2024 1 1, ex_day 2024 2 1)"
  by (simp add: get_summary_ranges_ex_now spec_in_range_def utc_micros_ex_days)

text \<open>
  C5, amended. For a clock value of the years 2 to 9998: the previous month ends where
  the month starts and is not empty, today starts no earlier than the month and ends no
  later than it, and today lies inside the week. So the previous month is disjoint from
  the month and from today, and an instant of today is also an instant of the week and
  of the month.
\<close>

theorem get_summary_ranges_nesting:
  assumes "valid_datetime now" and "2 \<le> year now" and "year now \<le> 9998"
  shows "\<exists>t0 t1 w0 w1 m0 m1 p0.
    get_summary_ranges now = Inr
      [(''today'', t0, t1), (''week'', w0, w1), (''month'', m0, m1), (''prev_month'', p0, m0)]
    \<and> utc_micros p0 < utc_micros m0 \<and> utc_micros m0 \<le> utc_micros t0
    \<and> utc_micros t0 < utc_micros t1 \<and> utc_micros t1 \<le> utc_micros m1
    \<and> utc_micros w0 \<le> utc_micros t0 \<and> utc_micros t1 \<le> utc_micros w1
    \<and> (spec_in_range x (p0, m0) \<longrightarrow> \<not> spec_in_range x (m0, m1) \<and> \<not> spec_in_range x (t0, t1))
    \<and> (spec_in_range x (t0, t1) \<longrightarrow> spec_in_range x (w0, w1) \<and> spec_in_range x (m0, m1))"
proof -
  let ?y = "year now"
  let ?m = "month now"
  let ?tz = "tzinfo now"
  let ?off = "(case ?tz of None \<Rightarrow> 0 | Some off \<Rightarrow> off)"
  let ?today_lo = "spec_midnight now"
  let ?today_hi = "from_ordinal_midnight (toordinal now + 1) ?tz"
  let ?week_lo = "from_ordinal_midnight (toordinal now - weekday now) ?tz"
  let ?week_hi = "from_ordinal_midnight (toordinal now - weekday now + 7) ?tz"
  let ?month_lo = "spec_first_of_month ?y ?m ?tz"
  let ?month_hi = "(if ?m = 12 then spec_first_of_month (?y + 1) 1 ?tz
              else spec_first_of_month ?y (?m + 1) ?tz)"
  let ?prev_lo = "(if ?m = 1 then spec_first_of_month (?y - 1) 12 ?tz
              else spec_first_of_month ?y (?m - 1) ?tz)"
  have v: "1 \<le> ?m" "?m \<le> 12" "1 \<le> day now" "day now \<le> days_in_month ?y ?m"
    using assms(1) by (simp_all add: valid_datetime_def)
  have t1: "1 \<le> toordinal now" using toordinal_bounds(1) [OF assms(1)] .
  have wle: "weekday now \<le> toordinal now - 1" by (rule weekday_le_ordinal [OF t1])
  have w0: "0 \<le> weekday now" "weekday now \<le> 6" by (rule weekday_range)+
  have ord: "toordinal now = days_before_year ?y + days_before_month ?y ?m + day now"
    by (simp add: toordinal_def ymd2ord_def)
  have u_t0: "utc_micros ?today_lo = toordinal now * 86400000000 - ?off"
    by (rule utc_micros_spec_midnight)
  have u_t1: "utc_micros ?today_hi = (toordinal now + 1) * 86400000000 - ?off"
    by (rule utc_micros_from_ordinal_midnight) (use t1 in simp)
  have u_w0: "utc_micros ?week_lo = (toordinal now - weekday now) * 86400000000 - ?off"
    by (rule utc_micros_from_ordinal_midnight) (use wle in simp)
  have u_w1: "utc_micros ?week_hi = (toordinal now - weekday now + 7) * 86400000000 - ?off"
    by (rule utc_micros_from_ordinal_midnight) (use wle in simp)
  have u_m0: "utc_micros ?month_lo
      = (days_before_year ?y + days_before_month ?y ?m + 1) * 86400000000 - ?off"
    by (rule utc_micros_spec_first_of_month)
  have i4: "utc_micros ?today_hi \<le> utc_micros ?month_hi"
  proof (cases "?m = 12")
    case True
    have "toordinal now + 1 \<le> days_before_year (?y + 1) + days_before_month (?y + 1) 1 + 1"
      using v(4) True
      by (simp add: ord days_before_year_next days_before_month_1_12 days_in_month_12)
    then have "(toordinal now + 1) * 86400000000
        \<le> (days_before_year (?y + 1) + days_before_month (?y + 1) 1 + 1) * 86400000000"
      by simp
    then show ?thesis
      unfolding u_t1 using True by (simp add: utc_micros_spec_first_of_month)
  next
    case False
    then have "?m \<le> 11" using v(2) by simp
    then have "toordinal now + 1 \<le> days_before_year ?y + days_before_month ?y (?m + 1) + 1"
      using v by (simp add: ord days_before_month_next)
    then have "(toordinal now + 1) * 86400000000
        \<le> (days_before_year ?y + days_before_month ?y (?m + 1) + 1) * 86400000000"
      by simp
    then show ?thesis
      unfolding u_t1 using False by (simp add: utc_micros_spec_first_of_month)
  qed
  have i1: "utc_micros ?prev_lo < utc_micros ?month_lo"
  proof (cases "?m = 1")
    case True
    have "days_before_year (?y - 1) + days_before_month (?y - 1) 12 + 1
            < days_before_year ?y + days_before_month ?y ?m + 1"
      using True days_before_year_next [of "?y - 1"]
      by (simp add: days_before_month_1_12)
    then have "(days_before_year (?y - 1) + days_before_month (?y - 1) 12 + 1) * 86400000000
            < (days_before_year ?y + days_before_month ?y ?m + 1) * 86400000000"
      by simp
    then show ?thesis
      unfolding u_m0 using True by (simp add: utc_micros_spec_first_of_month)
  next
    case False
    then have b: "1 \<le> ?m - 1" "?m - 1 \<le> 11" using v(1,2) by simp_all
    have "days_before_month ?y ?m = days_before_month ?y (?m - 1) + days_in_month ?y (?m - 1)"
      using days_before_month_next [OF b, of ?y] by simp
    moreover have "28 \<le> days_in_month ?y (?m - 1)"
      by (rule days_in_month_ge) (use b in simp_all)
    ultimately have "days_before_year ?y + days_before_month ?y (?m - 1) + 1
            < days_before_year ?y + days_before_month ?y ?m + 1"
      by simp
    then have "(days_before_year ?y + days_before_month ?y (?m - 1) + 1) * 86400000000
            < (days_before_year ?y + days_before_month ?y ?m + 1) * 86400000000"
      by simp
    then show ?thesis
      unfolding u_m0 using False by (simp add: utc_micros_spec_first_of_month)
  qed
  have i2: "utc_micros ?month_lo \<le> utc_micros ?today_lo" using u_m0 u_t0 ord v(3) by simp
  have i3: "utc_micros ?today_lo < utc_micros ?today_hi" using u_t0 u_t1 by simp
  have i5: "utc_micros ?week_lo \<le> utc_micros ?today_lo" using u_w0 u_t0 w0 by simp
  have i6: "utc_micros ?today_hi \<le> utc_micros ?week_hi" using u_w1 u_t1 w0 by simp
  have r: "get_summary_ranges now = Inr
      [(''today'', ?today_lo, ?today_hi), (''week'', ?week_lo, ?week_hi), (''month'', ?month_lo, ?month_hi),
       (''prev_month'', ?prev_lo, ?month_lo)]"
    by (rule get_summary_ranges_eq [OF assms])
  have c: "utc_micros ?prev_lo < utc_micros ?month_lo \<and> utc_micros ?month_lo \<le> utc_micros ?today_lo
    \<and> utc_micros ?today_lo < utc_micros ?today_hi \<and> utc_micros ?today_hi \<le> utc_micros ?month_hi
    \<and> utc_micros ?week_lo \<le> utc_micros ?today_lo \<and> utc_micros ?today_hi \<le> utc_micros ?week_hi
    \<and> (spec_in_range x (?prev_lo, ?month_lo) \<longrightarrow>
          \<not> spec_in_range x (?month_lo, ?month_hi) \<and> \<not> spec_in_range x (?today_lo, ?today_hi))
    \<and> (spec_in_range x (?today_lo, ?today_hi) \<longrightarrow>
          spec_in_range x (?week_lo, ?week_hi) \<and> spec_in_range x (?month_lo, ?month_hi))"
    using i1 i2 i3 i4 i5 i6 unfolding spec_in_range_def fst_conv snd_conv by linarith
  from r c show ?thesis by blast
qed

theorem get_summary_ranges_nesting_witness:
  "valid_datetime ex_now \<and> 2 \<le> year ex_now \<and> year ex_now \<le> 9998
   \<and> utc_micros (ex_day 2023 12 1) < utc_micros (ex_day 2024 1 1)
   \<and> utc_micros (ex_day 2024 1 1) \<le> utc_micros (ex_day 2024 1 17)
   \<and> utc_micros (ex_day 2024 1 18) \<le> utc_micros (ex_day 2024 2 1)
   \<and> utc_micros (ex_day 2024 1 15) \<le> utc_micros (ex_day 2024 1 17)
   \<and> utc_micros (ex_day 2024 1 18) \<le> utc_micros (ex_day 2024 1 22)
   \<and> spec_in_range ex_now (ex_day 2024 1 17, ex_day 2024 1 18)
   \<and> spec_in_range ex_now (ex_day 2024 1 15, ex_day 2024 1 22)
   \<and> spec_in_range ex_now (ex_day 2024 1 1, ex_day 2024 2 1)
   \<and> spec_in_range (ex_day 2023 12 1) (ex_day 2023 12 1, ex_day 2024 1 1)
   \<and> \<not> spec_in_range (ex_day 2023 12 1) (ex_day 2024 1 1, ex_day 2024 2 1)
   \<and> \<not> spec_in_range (ex_day 2023 12 1) (ex_day 2024 1 17, ex_day 2024 1 18)"
proof -
  have y: "2 \<le> year ex_now" "year ex_now \<le> 9998" by (simp_all add: ex_now_def)
  have a: "spec_in_range ex_now (ex_day 2024 1 17, ex_day 2024 1 18)"
    and b: "spec_in_range (ex_day 2023 12 1) (ex_day 2023 12 1, ex_day 2024 1 1)"
    by (simp_all add: spec_in_range_def utc_micros_ex_days)
  from get_summary_ranges_nesting [OF valid_ex_now y, of ex_now]
       get_summary_ranges_nesting [OF valid_ex_now y, of "ex_day 2023 12 1"] a b
  show ?thesis
    using valid_ex_now y by (auto simp: get_summary_ranges_ex_now)
qed

section \<open>Properties of the summary\<close>













section \<open>Properties of the stop action\<close>



lemma oid_set_fields: "oid (set_fields upd d) = oid d"
  by (simp add: set_fields_def)













section \<open>Properties of the listing\<close>

lemma start_time_recompute_entry:
  "map_of (body (recompute_entry now d)) ''start_time'' = map_of (body d) ''start_time''"
  by (simp add: recompute_entry_def Let_def update_conv')








lemma spec_start_pos_recompute_entry:
  "spec_start_pos (recompute_entry now d) = spec_start_pos d"
  by (simp add: spec_start_pos_def start_time_recompute_entry)














end
